theory Spec2Isabelle
  imports Complex_Main "HOL-Library.Product_Lexorder" "HOL-Library.Multiset"
begin

section \<open>Data model of the reveal engine (frontend/js/app.js)\<close>

text \<open>
  JavaScript numbers that the engine only ever adds, compares and floors are modelled as
  \<open>int\<close>; \<open>Math.floor(t / 60)\<close> on an integer \<open>t\<close> is \<open>t div 60\<close> (both round
  towards minus infinity). Objects held in the global array \<open>state\<close> are mutated in
  place by the source; the model keeps them in a list and identifies an object with its
  position in that list.
\<close>

text \<open>A problem cell \<open>{ solved, time, failed }\<close>; an absent \<open>failed\<close> field is falsy and
  is modelled as \<open>False\<close>.\<close>

record cell =
  cell_solved :: bool
  cell_time :: int
  cell_failed :: bool

record contestant =
  handle :: string
  freezeRank :: int
  freezeSolvedCount :: int
  freezePenalty :: int
  rank :: int
  solved :: int
  penalty :: int
  probs :: "string \<rightharpoonup> cell"
  delta :: int

text \<open>An entry of \<open>blindHourSubmissions\<close>. The verdict is the string the backend sends;
  only \<open>'OK'\<close> counts as accepted. \<open>wrongAttemptsBefore\<close> may be missing.\<close>

record submission =
  s_handle :: string
  s_problemIndex :: string
  s_problemName :: string
  s_verdict :: string
  s_relativeTimeSec :: int
  s_wrongAttemptsBefore :: "int option"

record mvp_rec =
  mvp_handle :: string
  mvp_delta :: int

record hero_rec =
  hero_handle :: string
  hero_problemIndex :: string
  hero_problemName :: string
  hero_time :: int

record persistent_rec =
  mp_handle :: string
  mp_problemIndex :: string
  mp_problemName :: string
  mp_count :: int

text \<open>The module-level variables the reveal engine reads and writes.\<close>

record reveal =
  state :: "contestant list"
  queue :: "submission list"
  revealed :: int
  acceptedCount :: int
  rankChangeCount :: int
  playing :: bool
  processing :: bool
  revealFinished :: bool
  mvp :: mvp_rec
  lastMinuteHero :: hero_rec
  submissionCounts :: "string \<rightharpoonup> int"
  mostPersistent :: persistent_rec

definition WA_PENALTY_MINUTES :: int where
  "WA_PENALTY_MINUTES = 20"

section \<open>Ranking: \<open>recalcRanks\<close>\<close>

text \<open>The comparator handed to \<open>Array.prototype.sort\<close>:
  \<^verbatim>\<open>(a, b) => b.solved !== a.solved ? b.solved - a.solved : a.penalty - b.penalty\<close>.\<close>

definition rank_cmp :: "contestant \<Rightarrow> contestant \<Rightarrow> int" where
  "rank_cmp a b = (if solved b \<noteq> solved a then solved b - solved a else penalty a - penalty b)"

text \<open>
  \<open>Array.prototype.sort\<close> is a stable sort (ECMAScript 2019): with a consistent
  comparator it returns the elements in comparator order and keeps the input order of
  elements that compare equal. It is modelled by the stable insertion sort below; an element
  is put in front of the first element it does not compare greater than.
\<close>

fun insert_cmp :: "('a \<Rightarrow> 'a \<Rightarrow> int) \<Rightarrow> 'a \<Rightarrow> 'a list \<Rightarrow> 'a list" where
  "insert_cmp c x [] = [x]"
| "insert_cmp c x (y # ys) = (if c x y \<le> 0 then x # y # ys else y # insert_cmp c x ys)"

definition sort_cmp :: "('a \<Rightarrow> 'a \<Rightarrow> int) \<Rightarrow> 'a list \<Rightarrow> 'a list" where
  "sort_cmp c xs = foldr (insert_cmp c) xs []"

text \<open>\<open>sorted.forEach((c, i) => { c.rank = i + 1; c.delta = c.freezeRank - c.rank; })\<close>:
  the sorted copy holds references to the objects of \<open>state\<close>, here their positions;
  \<open>k\<close> is the loop index.\<close>

definition set_rank :: "int \<Rightarrow> contestant \<Rightarrow> contestant" where
  "set_rank r c = c\<lparr>rank := r, delta := freezeRank c - r\<rparr>"

fun assign_ranks :: "nat \<Rightarrow> nat list \<Rightarrow> contestant list \<Rightarrow> contestant list" where
  "assign_ranks k [] cs = cs"
| "assign_ranks k (i # is) cs = assign_ranks (Suc k) is (cs[i := set_rank (int k + 1) (cs ! i)])"

definition sorted_refs :: "contestant list \<Rightarrow> nat list" where
  "sorted_refs cs = sort_cmp (\<lambda>i j. rank_cmp (cs ! i) (cs ! j)) [0..<length cs]"

definition recalc :: "contestant list \<Rightarrow> contestant list" where
  "recalc cs = assign_ranks 0 (sorted_refs cs) cs"

definition recalcRanks :: "reveal \<Rightarrow> reveal" where
  "recalcRanks st = st\<lparr>state := recalc (state st)\<rparr>"

section \<open>Step mode: \<open>nextSubmission\<close>\<close>

text \<open>\<open>state.find(x => x.handle === h)\<close> yields the first matching object, here its
  position.\<close>

fun findIndex :: "('a \<Rightarrow> bool) \<Rightarrow> 'a list \<Rightarrow> nat option" where
  "findIndex P [] = None"
| "findIndex P (x # xs) = (if P x then Some 0 else map_option Suc (findIndex P xs))"

definition findContestant :: "string \<Rightarrow> contestant list \<Rightarrow> nat option" where
  "findContestant h cs = findIndex (\<lambda>x. handle x = h) cs"

definition sub_key :: "submission \<Rightarrow> string" where
  "sub_key sub = s_handle sub @ ''|'' @ s_problemIndex sub"

text \<open>Persistence tracking (the same statements in \<open>nextSubmission\<close> and \<open>revealAll\<close>):
  \<open>submissionCounts[key] = (submissionCounts[key] || 0) + 1\<close>, then the candidate is
  replaced when the new count is strictly larger.\<close>

definition trackPersistence :: "submission \<Rightarrow> reveal \<Rightarrow> reveal" where
  "trackPersistence sub st =
     (let thisCount = (case submissionCounts st (sub_key sub) of None \<Rightarrow> 0 | Some n \<Rightarrow> n) + 1;
          st1 = st\<lparr>submissionCounts := (submissionCounts st)(sub_key sub \<mapsto> thisCount)\<rparr>
      in if thisCount > mp_count (mostPersistent st1)
         then st1\<lparr>mostPersistent := \<lparr>mp_handle = s_handle sub, mp_problemIndex = s_problemIndex sub,
                 mp_problemName = s_problemName sub, mp_count = thisCount\<rparr>\<rparr>
         else st1)"

text \<open>Scoring of an accepted submission on the contestant object (the same three
  statements in both modes): the cell is overwritten, \<open>solved\<close> is incremented and the
  penalty grows by \<open>Math.floor(t / 60) + WA_PENALTY_MINUTES * (wrongAttemptsBefore || 0)\<close>.\<close>

definition waBefore :: "submission \<Rightarrow> int" where
  "waBefore sub = (case s_wrongAttemptsBefore sub of None \<Rightarrow> 0 | Some w \<Rightarrow> w)"

definition scoreAccepted :: "submission \<Rightarrow> contestant \<Rightarrow> contestant" where
  "scoreAccepted sub c =
     c\<lparr>probs := (probs c)(s_problemIndex sub \<mapsto>
            \<lparr>cell_solved = True, cell_time = s_relativeTimeSec sub, cell_failed = False\<rparr>),
       solved := solved c + 1,
       penalty := penalty c + (s_relativeTimeSec sub div 60 + WA_PENALTY_MINUTES * waBefore sub)\<rparr>"

definition heroOf :: "submission \<Rightarrow> hero_rec" where
  "heroOf sub = \<lparr>hero_handle = s_handle sub, hero_problemIndex = s_problemIndex sub,
                 hero_problemName = s_problemName sub, hero_time = s_relativeTimeSec sub\<rparr>"

text \<open>The rejected branch: \<open>if (!c.probs[p]?.solved) c.probs[p] = { solved: false,
  failed: true, time: 0 }\<close>.\<close>

definition cellSolved :: "contestant \<Rightarrow> string \<Rightarrow> bool" where
  "cellSolved c p = (case probs c p of None \<Rightarrow> False | Some x \<Rightarrow> cell_solved x)"

definition markRejected :: "submission \<Rightarrow> contestant \<Rightarrow> contestant" where
  "markRejected sub c =
     (if \<not> cellSolved c (s_problemIndex sub)
      then c\<lparr>probs := (probs c)(s_problemIndex sub \<mapsto>
               \<lparr>cell_solved = False, cell_time = 0, cell_failed = True\<rparr>)\<rparr>
      else c)"

text \<open>
  \<open>nextSubmission\<close> is an \<open>async\<close> function: it runs in segments separated by
  \<open>await sleep(...)\<close>. \<open>step_verdict\<close> is the segment after the pending pause,
  \<open>step_climb\<close> the one after the verdict pause, \<open>step_end\<close> the last two statements.
  \<open>i\<close> is the position of the contestant object \<open>c\<close> found for the submission.
\<close>

definition step_verdict :: "submission \<Rightarrow> nat \<Rightarrow> reveal \<Rightarrow> reveal" where
  "step_verdict sub i st =
     (if s_verdict sub = ''OK''
      then st\<lparr>acceptedCount := acceptedCount st + 1,
              state := (state st)[i := scoreAccepted sub (state st ! i)],
              lastMinuteHero := heroOf sub\<rparr>
      else st\<lparr>state := (state st)[i := markRejected sub (state st ! i)]\<rparr>)"

definition step_climb :: "submission \<Rightarrow> nat \<Rightarrow> reveal \<Rightarrow> reveal" where
  "step_climb sub i st =
     (if s_verdict sub = ''OK''
      then (let oldRank = rank (state st ! i);
                st1 = recalcRanks st;
                c = state st1 ! i;
                climb = oldRank - rank c
            in if climb > 0
               then (let st2 = st1\<lparr>rankChangeCount := rankChangeCount st1 + 1\<rparr>
                     in if delta c > mvp_delta (mvp st2)
                        then st2\<lparr>mvp := \<lparr>mvp_handle = handle c, mvp_delta = delta c\<rparr>\<rparr>
                        else st2)
               else st1)
      else st)"

definition step_end :: "reveal \<Rightarrow> reveal" where
  "step_end st = st\<lparr>processing := False\<rparr>"

definition finishReveal :: "reveal \<Rightarrow> reveal" where
  "finishReveal st = st\<lparr>revealFinished := True\<rparr>"

text \<open>The first segment: the guards, \<open>queue.shift()\<close>, the lookup of the contestant and
  the persistence tracking. It returns the in-flight submission and contestant when the
  step goes on. With \<open>revealFinished\<close> set the source only renders the awards overlay.\<close>

definition step_begin :: "reveal \<Rightarrow> reveal \<times> (submission \<times> nat) option" where
  "step_begin st =
     (if processing st then (st, None)
      else if revealFinished st then (st, None)
      else case queue st of
             [] \<Rightarrow> (finishReveal st, None)
           | sub # rest \<Rightarrow>
               (let st1 = st\<lparr>processing := True, queue := rest, revealed := revealed st + 1\<rparr>
                in case findContestant (s_handle sub) (state st1) of
                     None \<Rightarrow> (st1\<lparr>processing := False\<rparr>, None)
                   | Some i \<Rightarrow> (trackPersistence sub st1, Some (sub, i))))"

definition nextSubmission :: "reveal \<Rightarrow> reveal" where
  "nextSubmission st =
     (case step_begin st of
        (st1, None) \<Rightarrow> st1
      | (st1, Some (sub, i)) \<Rightarrow> step_end (step_climb sub i (step_verdict sub i st1)))"

text \<open>
  Auto-play (\<open>autoTick\<close>) is the source's driver that applies the step until the queue is
  empty: it stops and finishes the reveal when the queue is empty (or stops when playing
  was cancelled), and otherwise awaits \<open>nextSubmission\<close> and schedules itself again.
  Nothing bounds the number of rounds when the step makes no progress (the step returns at
  once while \<open>processing\<close> or \<open>revealFinished\<close> is set), so the loop is a partial
  function: \<open>None\<close> is a run that never ends.
\<close>

definition stopAuto :: "reveal \<Rightarrow> reveal" where
  "stopAuto st = st\<lparr>playing := False\<rparr>"

partial_function (option) autoTick :: "reveal \<Rightarrow> reveal option" where
  "autoTick st =
     (if \<not> playing st \<or> queue st = []
      then Some (let st1 = stopAuto st in if queue st1 = [] then finishReveal st1 else st1)
      else (let st1 = nextSubmission st in if \<not> playing st1 then Some st1 else autoTick st1))"

definition autoPlay :: "reveal \<Rightarrow> reveal option" where
  "autoPlay st = (if playing st then Some (stopAuto st) else autoTick (st\<lparr>playing := True\<rparr>))"

section \<open>Batch mode: \<open>revealAll\<close>\<close>

text \<open>\<open>state.forEach(c => { oldRanks[c.handle] = c.rank; })\<close>.\<close>

definition snapshotRanks :: "contestant list \<Rightarrow> (string \<rightharpoonup> int)" where
  "snapshotRanks cs = foldl (\<lambda>m c. m(handle c \<mapsto> rank c)) Map.empty cs"

text \<open>The body of the \<open>while (queue.length > 0)\<close> loop after \<open>queue.shift()\<close> and
  \<open>revealed++\<close>. A rejected submission changes no cell here, and the last-minute
  candidate is replaced only by a strictly later acceptance.\<close>

definition revealOne :: "submission \<Rightarrow> reveal \<Rightarrow> reveal" where
  "revealOne sub st =
     (case findContestant (s_handle sub) (state st) of
        None \<Rightarrow> st
      | Some i \<Rightarrow>
          (let st1 = trackPersistence sub st
           in if s_verdict sub = ''OK''
              then (let st2 = st1\<lparr>state := (state st1)[i := scoreAccepted sub (state st1 ! i)],
                                  acceptedCount := acceptedCount st1 + 1\<rparr>
                    in if s_relativeTimeSec sub > hero_time (lastMinuteHero st2)
                       then st2\<lparr>lastMinuteHero := heroOf sub\<rparr>
                       else st2)
              else st1))"

fun revealLoop :: "submission list \<Rightarrow> reveal \<Rightarrow> reveal" where
  "revealLoop [] st = st"
| "revealLoop (sub # rest) st =
     revealLoop rest (revealOne sub (st\<lparr>queue := rest, revealed := revealed st + 1\<rparr>))"

text \<open>The scan after the final \<open>recalcRanks\<close>:
  \<open>delta = (oldRanks[c.handle] || c.rank) - c.rank\<close>; a missing or zero old rank is
  falsy and falls back to the current rank.\<close>

definition oldRankOf :: "(string \<rightharpoonup> int) \<Rightarrow> contestant \<Rightarrow> int" where
  "oldRankOf oldRanks c =
     (case oldRanks (handle c) of None \<Rightarrow> rank c | Some r \<Rightarrow> if r = 0 then rank c else r)"

definition mvpScan :: "(string \<rightharpoonup> int) \<Rightarrow> reveal \<Rightarrow> contestant \<Rightarrow> reveal" where
  "mvpScan oldRanks st c =
     (let d = oldRankOf oldRanks c - rank c;
          st1 = (if d \<noteq> 0 then st\<lparr>rankChangeCount := rankChangeCount st + 1\<rparr> else st)
      in if d > mvp_delta (mvp st1)
         then st1\<lparr>mvp := \<lparr>mvp_handle = handle c, mvp_delta = d\<rparr>\<rparr>
         else st1)"

text \<open>\<open>confirmed\<close> is the answer to the \<open>confirm(...)\<close> dialog.\<close>

definition revealAll :: "bool \<Rightarrow> reveal \<Rightarrow> reveal" where
  "revealAll confirmed st =
     (let st0 = stopAuto st
      in if \<not> confirmed then st0
         else (let oldRanks = snapshotRanks (state st0);
                   st1 = revealLoop (queue st0) st0;
                   st2 = recalcRanks st1;
                   st3 = foldl (mvpScan oldRanks) st2 (state st2)
               in finishReveal st3))"

section \<open>Awards: \<open>finishReveal\<close> and \<open>showAwards\<close>\<close>




section \<open>Start of a reveal: \<open>resetReveal\<close>\<close>





section \<open>The contest clock: \<open>updateTimerDisplay\<close>\<close>

datatype phase = Setup | Live | Frozen | Ended | Reveal

text \<open>
  The timer variables of the module. Timestamps are milliseconds; \<open>timeScale\<close> and the
  start timestamp may be fractional (\<open>contestStartTimestamp = Date.now() - elapsedSec *
  1000 / scale\<close>), so they are exact rationals here. \<open>timerRunning\<close> says that
  \<open>timerInterval\<close> is set, \<open>polling\<close> that \<open>livePoller\<close> is set.
\<close>

record clock =
  currentPhase :: phase
  contestDurationSec :: int
  freezeAtSec :: int
  contestStartTimestamp :: rat
  timeScale :: rat
  isFrozen :: bool
  timerRunning :: bool
  polling :: bool

definition stopContestTimer :: "clock \<Rightarrow> clock" where
  "stopContestTimer k = k\<lparr>timerRunning := False\<rparr>"

definition enterFrozenPhase :: "clock \<Rightarrow> clock" where
  "enterFrozenPhase k =
     (if currentPhase k = Frozen then k
      else (let k1 = k\<lparr>currentPhase := Frozen, isFrozen := True\<rparr>
            in if polling k1 \<and> timeScale k1 \<le> 1 then k1\<lparr>polling := False\<rparr> else k1))"

definition enterContestEndedPhase :: "clock \<Rightarrow> clock" where
  "enterContestEndedPhase k = stopContestTimer (k\<lparr>currentPhase := Ended\<rparr>)"

definition elapsedSec :: "clock \<Rightarrow> rat \<Rightarrow> int" where
  "elapsedSec k now = \<lfloor>(now - contestStartTimestamp k) * timeScale k / 1000\<rfloor>"

text \<open>What one tick shows and requests: the two remaining times and whether the freeze
  and the end transition fired in this tick.\<close>

record tick_out =
  remainingSec :: int
  remainingUntilFreezeSec :: int
  firedFreeze :: bool
  firedEnd :: bool

definition updateTimerDisplay :: "rat \<Rightarrow> clock \<Rightarrow> clock \<times> tick_out" where
  "updateTimerDisplay now k =
     (let e = elapsedSec k now;
          remaining = max 0 (contestDurationSec k - e);
          remainingUntilFreeze = max 0 (freezeAtSec k - e);
          doFreeze = (\<not> isFrozen k \<and> e \<ge> freezeAtSec k \<and> currentPhase k = Live);
          k1 = (if doFreeze then enterFrozenPhase (k\<lparr>isFrozen := True\<rparr>) else k);
          doEnd = (remaining \<le> 0 \<and> (currentPhase k1 = Frozen \<or> currentPhase k1 = Live));
          k2 = (if doEnd then enterContestEndedPhase (stopContestTimer k1) else k1)
      in (k2, \<lparr>remainingSec = remaining, remainingUntilFreezeSec = remainingUntilFreeze,
               firedFreeze = doFreeze, firedEnd = doEnd\<rparr>))"

text \<open>A run of the timer: the interval calls \<open>updateTimerDisplay\<close> at the given
  instants, one after the other; the outputs are collected.\<close>

fun runTicks :: "rat list \<Rightarrow> clock \<Rightarrow> tick_out list" where
  "runTicks [] k = []"
| "runTicks (now # nows) k =
     (case updateTimerDisplay now k of (k1, out) \<Rightarrow> out # runTicks nows k1)"

section \<open>Auxiliary notions for the proofs\<close>

text \<open>The sort key that the comparator \<open>rank_cmp\<close> induces: more solved first, then less
  penalty (pairs are ordered lexicographically).\<close>

definition rank_key :: "contestant \<Rightarrow> int \<times> int" where
  "rank_key c = (- solved c, penalty c)"

definition ref_key :: "contestant list \<Rightarrow> nat \<Rightarrow> int \<times> int" where
  "ref_key cs i = rank_key (cs ! i)"

text \<open>What the two modes share after the same prefix of the queue.\<close>

definition agree :: "reveal \<Rightarrow> reveal \<Rightarrow> bool" where
  "agree s b \<longleftrightarrow>
     map handle (state s) = map handle (state b) \<and> map solved (state s) = map solved (state b)
     \<and> map penalty (state s) = map penalty (state b)
     \<and> submissionCounts s = submissionCounts b \<and> mostPersistent s = mostPersistent b"

definition ranked :: "contestant list \<Rightarrow> bool" where
  "ranked cs \<longleftrightarrow> map rank (recalc cs) = map rank cs"

text \<open>The list that is true exactly at the first true position of its argument.\<close>

fun firstOnly :: "bool list \<Rightarrow> bool list" where
  "firstOnly [] = []"
| "firstOnly (b # bs) = (if b then True # map (\<lambda>_. False) bs else False # firstOnly bs)"




section \<open>Concrete boards, queues and clocks for the examples\<close>

definition ex_contestant :: "string \<Rightarrow> int \<Rightarrow> int \<Rightarrow> int \<Rightarrow> contestant" where
  "ex_contestant h r s p =
     \<lparr>handle = h, freezeRank = r, freezeSolvedCount = s, freezePenalty = p,
      rank = r, solved = s, penalty = p, probs = Map.empty, delta = 0\<rparr>"

definition ex_reveal :: "contestant list \<Rightarrow> submission list \<Rightarrow> reveal" where
  "ex_reveal cs q =
     \<lparr>state = cs, queue = q, revealed = 0, acceptedCount = 0, rankChangeCount = 0,
      playing = False, processing = False, revealFinished = False,
      mvp = \<lparr>mvp_handle = [], mvp_delta = 0\<rparr>,
      lastMinuteHero = \<lparr>hero_handle = [], hero_problemIndex = [], hero_problemName = [],
                        hero_time = 0\<rparr>,
      submissionCounts = Map.empty,
      mostPersistent = \<lparr>mp_handle = [], mp_problemIndex = [], mp_problemName = [],
                        mp_count = 0\<rparr>\<rparr>"

definition ex_board :: reveal where
  "ex_board = ex_reveal [ex_contestant ''ann'' 3 2 100, ex_contestant ''bob'' 1 3 500,
                         ex_contestant ''cat'' 2 2 90, ex_contestant ''dan'' 4 2 100] []"

lemmas ex_simps = ex_board_def ex_reveal_def ex_contestant_def

definition ex_sub :: "string \<Rightarrow> string \<Rightarrow> string \<Rightarrow> int \<Rightarrow> int option \<Rightarrow> submission" where
  "ex_sub h p v t w =
     \<lparr>s_handle = h, s_problemIndex = p, s_problemName = ''problem'', s_verdict = v,
      s_relativeTimeSec = t, s_wrongAttemptsBefore = w\<rparr>"

definition ex_race :: reveal where
  "ex_race =
     (ex_reveal [ex_contestant ''x'' 1 1 10, ex_contestant ''a'' 2 1 20, ex_contestant ''b'' 3 1 30]
        [ex_sub ''b'' ''A'' ''OK'' 10800 None, ex_sub ''x'' ''B'' ''OK'' 10900 None])
     \<lparr>playing := True\<rparr>"

lemmas ex_race_simps = ex_race_def ex_reveal_def ex_contestant_def ex_sub_def

definition ex_penalty :: reveal where
  "ex_penalty = ex_reveal [ex_contestant ''ann'' 5 3 300]
                  [ex_sub ''ann'' ''D'' ''OK'' 754 (Some 2)]"

definition ex_solved_ann :: contestant where
  "ex_solved_ann =
     (ex_contestant ''ann'' 5 3 300)
       \<lparr>probs := [''D'' \<mapsto> \<lparr>cell_solved = True, cell_time = 100, cell_failed = False\<rparr>]\<rparr>"

definition ex_wrong :: submission where
  "ex_wrong = ex_sub ''ann'' ''D'' ''WRONG_ANSWER'' 7000 None"

definition ex_rejected_solved :: reveal where
  "ex_rejected_solved = ex_reveal [ex_solved_ann] [ex_wrong]"

definition ex_rejected_open :: reveal where
  "ex_rejected_open = ex_reveal [ex_contestant ''ann'' 5 3 300] [ex_wrong]"

definition ex_resolved :: reveal where
  "ex_resolved = ex_reveal [ex_solved_ann] [ex_sub ''ann'' ''D'' ''OK'' 7000 (Some 1)]"

definition ex_unknown :: reveal where
  "ex_unknown = ex_reveal [ex_contestant ''ann'' 5 3 300]
                  [ex_sub ''zed'' ''A'' ''OK'' 700 None, ex_sub ''ann'' ''D'' ''OK'' 754 (Some 2)]"

lemmas ex_all_simps = ex_solved_ann_def ex_wrong_def ex_rejected_solved_def ex_rejected_open_def
  ex_resolved_def ex_unknown_def ex_penalty_def ex_reveal_def ex_contestant_def ex_sub_def

definition ex_in_flight :: reveal where
  "ex_in_flight = fst (step_begin ex_penalty)"

definition ex_clock :: clock where
  "ex_clock = \<lparr>currentPhase = Live, contestDurationSec = 100, freezeAtSec = 60,
               contestStartTimestamp = 0, timeScale = 1, isFrozen = False,
               timerRunning = True, polling = True\<rparr>"




definition ex_tied :: reveal where
  "ex_tied = (ex_reveal [ex_contestant ''x'' 1 2 50, ex_contestant ''y'' 1 2 50]
                [ex_sub ''y'' ''A'' ''WRONG_ANSWER'' 10800 None])\<lparr>playing := True\<rparr>"

definition ex_unordered :: reveal where
  "ex_unordered = (ex_reveal [ex_contestant ''x'' 1 2 50, ex_contestant ''y'' 2 1 50]
                    [ex_sub ''y'' ''A'' ''OK'' 10900 None, ex_sub ''x'' ''B'' ''OK'' 10800 None])
                  \<lparr>playing := True\<rparr>"

lemmas ex_modes_simps = ex_race_def ex_tied_def ex_unordered_def ex_reveal_def ex_contestant_def
  ex_sub_def


section \<open>Lemmas on ranking\<close>

lemma length_assign_ranks: "length (assign_ranks k is cs) = length cs"
  by (induction "is" arbitrary: k cs) auto

lemma penalty_set_rank: "penalty (set_rank r c) = penalty c"
  by (simp add: set_rank_def)

lemma solved_set_rank: "solved (set_rank r c) = solved c"
  by (simp add: set_rank_def)

lemma handle_set_rank: "handle (set_rank r c) = handle c"
  by (simp add: set_rank_def)

lemma probs_set_rank: "probs (set_rank r c) = probs c"
  by (simp add: set_rank_def)

lemma freezeRank_set_rank: "freezeRank (set_rank r c) = freezeRank c"
  by (simp add: set_rank_def)

lemma assign_ranks_keeps:
  assumes "\<And>r c. f (set_rank r c) = f c"
  shows "map f (assign_ranks k is cs) = map f cs"
proof (induction "is" arbitrary: k cs)
  case Nil
  show ?case by simp
next
  case (Cons i "is")
  have "map f (cs[i := set_rank (int k + 1) (cs ! i)]) = map f cs"
  proof (cases "i < length cs")
    case True
    then have "(map f cs)[i := f (cs ! i)] = map f cs"
      by (metis list_update_id nth_map)
    then show ?thesis by (simp add: map_update assms)
  next
    case False
    then show ?thesis by (simp add: list_update_beyond)
  qed
  with Cons show ?case by simp
qed

lemma recalc_keeps:
  assumes "\<And>r c. f (set_rank r c) = f c"
  shows "map f (recalc cs) = map f cs"
  unfolding recalc_def by (rule assign_ranks_keeps [OF assms])

lemma length_recalc: "length (recalc cs) = length cs"
  by (simp add: recalc_def length_assign_ranks)

lemma recalc_nth_keeps:
  assumes "\<And>r c. f (set_rank r c) = f c" and "i < length cs"
  shows "f (recalc cs ! i) = f (cs ! i)"
proof -
  have "map f (recalc cs) ! i = map f cs ! i"
    by (simp add: recalc_keeps [of f, OF assms(1)])
  with assms(2) show ?thesis by (simp add: length_recalc)
qed

lemma findIndex_Some: "findIndex P xs = Some i \<Longrightarrow> i < length xs \<and> P (xs ! i)"
proof (induction xs arbitrary: i)
  case Nil
  then show ?case by simp
next
  case (Cons x xs)
  then show ?case by (cases "P x") auto
qed

lemma rank_cmp_le: "rank_cmp a b \<le> 0 \<longleftrightarrow> rank_key a \<le> rank_key b"
  by (auto simp: rank_cmp_def rank_key_def less_eq_prod_def)

lemma insert_cmp_insort:
  assumes "\<And>y. y \<in> set ys \<Longrightarrow> (c x y \<le> 0) = (f x \<le> f y)"
  shows "insert_cmp c x ys = insort_key f x ys"
  using assms by (induction ys) auto

lemma sort_cmp_sort_key:
  assumes "\<And>x y. x \<in> set xs \<Longrightarrow> y \<in> set xs \<Longrightarrow> (c x y \<le> 0) = (f x \<le> f y)"
  shows "sort_cmp c xs = sort_key f xs"
  using assms
proof (induction xs)
  case Nil
  show ?case by (simp add: sort_cmp_def)
next
  case (Cons x xs)
  have ih: "sort_cmp c xs = sort_key f xs" using Cons by simp
  have "insert_cmp c x (sort_key f xs) = insort_key f x (sort_key f xs)"
    by (rule insert_cmp_insort) (simp add: Cons.prems)
  with ih show ?case by (simp add: sort_cmp_def)
qed

lemma sorted_refs_sort_key: "sorted_refs cs = sort_key (ref_key cs) [0..<length cs]"
  unfolding sorted_refs_def by (rule sort_cmp_sort_key) (simp add: rank_cmp_le ref_key_def)

lemma set_sorted_refs: "set (sorted_refs cs) = {0..<length cs}"
  by (simp add: sorted_refs_sort_key)

lemma distinct_sorted_refs: "distinct (sorted_refs cs)"
  by (simp add: sorted_refs_sort_key)

lemma length_sorted_refs: "length (sorted_refs cs) = length cs"
  by (simp add: sorted_refs_sort_key)

lemma assign_ranks_other: "i \<notin> set is \<Longrightarrow> assign_ranks k is cs ! i = cs ! i"
  by (induction "is" arbitrary: k cs) auto

lemma assign_ranks_nth:
  assumes "distinct is" and "\<And>i. i \<in> set is \<Longrightarrow> i < length cs" and "p < length is"
  shows "assign_ranks k is cs ! (is ! p) = set_rank (int (k + p) + 1) (cs ! (is ! p))"
  using assms
proof (induction "is" arbitrary: k cs p)
  case Nil
  then show ?case by simp
next
  case (Cons i "is")
  let ?cs = "cs[i := set_rank (int k + 1) (cs ! i)]"
  show ?case
  proof (cases p)
    case 0
    have "assign_ranks (Suc k) is ?cs ! i = ?cs ! i"
      using Cons.prems(1) by (simp add: assign_ranks_other)
    with 0 Cons.prems(2) show ?thesis by simp
  next
    case (Suc q)
    have q: "q < length is" using Cons.prems(3) Suc by simp
    then have ne: "is ! q \<noteq> i" using Cons.prems(1) by auto
    have "assign_ranks (Suc k) is ?cs ! (is ! q) = set_rank (int (Suc k + q) + 1) (?cs ! (is ! q))"
      using Cons.prems q by (intro Cons.IH) auto
    with Suc ne show ?thesis by simp
  qed
qed

lemma recalc_at_ref:
  assumes "p < length cs"
  shows "recalc cs ! (sorted_refs cs ! p) = set_rank (int p + 1) (cs ! (sorted_refs cs ! p))"
proof -
  have "assign_ranks 0 (sorted_refs cs) cs ! (sorted_refs cs ! p)
        = set_rank (int (0 + p) + 1) (cs ! (sorted_refs cs ! p))"
    using assms by (intro assign_ranks_nth) (simp_all add: distinct_sorted_refs set_sorted_refs length_sorted_refs)
  then show ?thesis by (simp add: recalc_def)
qed

lemma ref_pos:
  assumes "i < length cs"
  obtains p where "p < length cs" and "sorted_refs cs ! p = i"
proof -
  have "i \<in> set (sorted_refs cs)" using assms by (simp add: set_sorted_refs)
  then obtain p where "p < length (sorted_refs cs)" "sorted_refs cs ! p = i"
    by (auto simp: in_set_conv_nth)
  then show ?thesis using that by (simp add: length_sorted_refs)
qed


lemma sorted_ref_keys: "sorted (map (ref_key cs) (sorted_refs cs))"
  by (simp add: sorted_refs_sort_key)

lemma stable_refs:
  "filter (\<lambda>i. ref_key cs i = k) (sorted_refs cs) = filter (\<lambda>i. ref_key cs i = k) [0..<length cs]"
  by (simp add: sorted_refs_sort_key sort_key_stable)

lemma sorted_filter_nth_le:
  fixes xs :: "nat list"
  assumes "sorted (filter P xs)" and "q < p" and "p < length xs" and "P (xs ! q)" and "P (xs ! p)"
  shows "xs ! q \<le> xs ! p"
proof -
  have xs: "xs = take p xs @ xs ! p # drop (Suc p) xs"
    using assms(3) by (rule id_take_nth_drop)
  have "xs ! q \<in> set (take p xs)"
    using assms(2,3) by (auto simp: in_set_conv_nth intro!: exI [of _ q])
  then have mem: "xs ! q \<in> set (filter P (take p xs))" using assms(4) by simp
  have "sorted (filter P (take p xs) @ xs ! p # filter P (drop (Suc p) xs))"
    using assms(1,5) by (subst (asm) xs) simp
  then show ?thesis using mem by (auto simp: sorted_append)
qed

text \<open>Position in the sorted copy grows with the key, and with the input position among
  equal keys.\<close>

lemma ref_order:
  assumes p: "p < length cs" and q: "q < length cs"
    and lt: "ref_key cs (sorted_refs cs ! p) < ref_key cs (sorted_refs cs ! q)
             \<or> (ref_key cs (sorted_refs cs ! p) = ref_key cs (sorted_refs cs ! q)
                \<and> sorted_refs cs ! p < sorted_refs cs ! q)"
  shows "p < q"
proof (rule ccontr)
  assume "\<not> p < q"
  then have qp: "q \<le> p" by simp
  let ?is = "sorted_refs cs"
  have len: "length ?is = length cs" by (rule length_sorted_refs)
  have le: "ref_key cs (?is ! q) \<le> ref_key cs (?is ! p)"
    using sorted_ref_keys [of cs] qp p len
    by (simp add: sorted_iff_nth_mono)
  from lt show False
  proof
    assume "ref_key cs (?is ! p) < ref_key cs (?is ! q)"
    with le show False by simp
  next
    assume eq: "ref_key cs (?is ! p) = ref_key cs (?is ! q) \<and> ?is ! p < ?is ! q"
    then have "q \<noteq> p" by auto
    with qp have "q < p" by simp
    moreover have "sorted (filter (\<lambda>i. ref_key cs i = ref_key cs (?is ! p)) ?is)"
      by (simp add: stable_refs sorted_wrt_filter)
    ultimately have "?is ! q \<le> ?is ! p"
      using p len eq by (intro sorted_filter_nth_le [where P = "\<lambda>i. ref_key cs i = ref_key cs (?is ! p)"]) simp_all
    with eq show False by simp
  qed
qed

lemma rank_set_rank: "rank (set_rank r c) = r"
  by (simp add: set_rank_def)

lemma recalc_rank_order:
  assumes i: "i < length cs" and j: "j < length cs"
    and lt: "rank_key (cs ! i) < rank_key (cs ! j) \<or> (rank_key (cs ! i) = rank_key (cs ! j) \<and> i < j)"
  shows "rank (recalc cs ! i) < rank (recalc cs ! j)"
proof -
  obtain p where p: "p < length cs" "sorted_refs cs ! p = i" using i by (rule ref_pos)
  obtain q where q: "q < length cs" "sorted_refs cs ! q = j" using j by (rule ref_pos)
  have "p < q"
    using p q lt by (intro ref_order [of p cs q]) (simp_all add: ref_key_def)
  moreover have "rank (recalc cs ! i) = int p + 1"
    using recalc_at_ref [OF p(1)] p(2) by (simp add: rank_set_rank)
  moreover have "rank (recalc cs ! j) = int q + 1"
    using recalc_at_ref [OF q(1)] q(2) by (simp add: rank_set_rank)
  ultimately show ?thesis by simp
qed

lemma sort_cmp_cong:
  assumes "\<And>x y. x \<in> set xs \<Longrightarrow> y \<in> set xs \<Longrightarrow> c x y = c' x y"
  shows "sort_cmp c xs = sort_cmp c' xs"
proof -
  have ins: "\<And>x ys. (\<And>y. y \<in> set ys \<Longrightarrow> c x y = c' x y) \<Longrightarrow> insert_cmp c x ys = insert_cmp c' x ys"
  proof -
    fix x ys show "(\<And>y. y \<in> set ys \<Longrightarrow> c x y = c' x y) \<Longrightarrow> insert_cmp c x ys = insert_cmp c' x ys"
      by (induction ys) auto
  qed
  have set_ins: "\<And>x ys. set (insert_cmp c' x ys) = insert x (set ys)"
  proof -
    fix x ys show "set (insert_cmp c' x ys) = insert x (set ys)"
      by (induction ys) auto
  qed
  have "sort_cmp c xs = sort_cmp c' xs \<and> set (sort_cmp c' xs) = set xs"
    using assms
  proof (induction xs)
    case Nil
    show ?case by (simp add: sort_cmp_def)
  next
    case (Cons x xs)
    then have ih: "sort_cmp c xs = sort_cmp c' xs" "set (sort_cmp c' xs) = set xs" by auto
    have "insert_cmp c x (sort_cmp c' xs) = insert_cmp c' x (sort_cmp c' xs)"
      by (rule ins) (simp add: ih Cons.prems)
    then show ?case using ih by (simp add: sort_cmp_def set_ins)
  qed
  then show ?thesis by simp
qed

lemma sorted_refs_cong:
  assumes "map rank_key cs = map rank_key cs'"
  shows "sorted_refs cs = sorted_refs cs'"
proof -
  have len: "length cs = length cs'" using assms by (rule map_eq_imp_length_eq)
  have key: "\<And>i. i < length cs \<Longrightarrow> rank_key (cs ! i) = rank_key (cs' ! i)"
  proof -
    fix i assume i: "i < length cs"
    have "map rank_key cs ! i = map rank_key cs' ! i" using assms by simp
    then show "rank_key (cs ! i) = rank_key (cs' ! i)" using i len by simp
  qed
  have cmp: "\<And>a b. rank_cmp a b = (if fst (rank_key a) \<noteq> fst (rank_key b) then fst (rank_key a) - fst (rank_key b) else snd (rank_key a) - snd (rank_key b))"
    by (auto simp: rank_cmp_def rank_key_def)
  have "sort_cmp (\<lambda>i j. rank_cmp (cs ! i) (cs ! j)) [0..<length cs]
      = sort_cmp (\<lambda>i j. rank_cmp (cs' ! i) (cs' ! j)) [0..<length cs]"
    by (rule sort_cmp_cong) (simp add: cmp key)
  then show ?thesis by (simp add: sorted_refs_def len)
qed

lemma rank_key_set_rank: "rank_key (set_rank r c) = rank_key c"
  by (simp add: rank_key_def set_rank_def)

lemma rank_key_recalc: "map rank_key (recalc cs) = map rank_key cs"
  by (rule recalc_keeps) (rule rank_key_set_rank)

lemma recalc_ranks_cong:
  assumes "map rank_key cs = map rank_key cs'"
  shows "map rank (recalc cs) = map rank (recalc cs')"
proof (rule nth_equalityI)
  have len: "length cs = length cs'" using assms by (rule map_eq_imp_length_eq)
  show "length (map rank (recalc cs)) = length (map rank (recalc cs'))"
    by (simp add: length_recalc len)
  fix i assume "i < length (map rank (recalc cs))"
  then have i: "i < length cs" by (simp add: length_recalc)
  obtain p where p: "p < length cs" "sorted_refs cs ! p = i" using i by (rule ref_pos)
  have refs: "sorted_refs cs' = sorted_refs cs" using sorted_refs_cong [OF assms] by simp
  have "rank (recalc cs ! i) = int p + 1"
    using recalc_at_ref [OF p(1)] p(2) by (simp add: rank_set_rank)
  moreover have "rank (recalc cs' ! i) = int p + 1"
    using recalc_at_ref [of p cs'] p len refs by (simp add: rank_set_rank)
  ultimately show "map rank (recalc cs) ! i = map rank (recalc cs') ! i"
    using i len by (simp add: length_recalc)
qed

lemma set_rank_idem: "set_rank r (set_rank r c) = set_rank r c"
  by (simp add: set_rank_def)

lemma recalc_idem: "recalc (recalc cs) = recalc cs"
proof (rule nth_equalityI)
  show "length (recalc (recalc cs)) = length (recalc cs)" by (simp add: length_recalc)
  fix i assume "i < length (recalc (recalc cs))"
  then have i: "i < length cs" by (simp add: length_recalc)
  obtain p where p: "p < length cs" "sorted_refs cs ! p = i" using i by (rule ref_pos)
  have refs: "sorted_refs (recalc cs) = sorted_refs cs"
    by (rule sorted_refs_cong) (rule rank_key_recalc)
  have a: "recalc cs ! i = set_rank (int p + 1) (cs ! i)"
    using recalc_at_ref [OF p(1)] p(2) by simp
  have "recalc (recalc cs) ! i = set_rank (int p + 1) (recalc cs ! i)"
    using recalc_at_ref [of p "recalc cs"] p refs by (simp add: length_recalc)
  with a show "recalc (recalc cs) ! i = recalc cs ! i" by (simp add: set_rank_idem)
qed

lemma mset_ranks_recalc: "mset (map rank (recalc cs)) = mset (map (\<lambda>p. int p + 1) [0..<length cs])"
proof -
  let ?is = "sorted_refs cs"
  have m: "mset ?is = mset [0..<length cs]"
    by (simp add: sorted_refs_sort_key)
  have "map (\<lambda>i. rank (recalc cs ! i)) ?is = map (\<lambda>p. int p + 1) [0..<length cs]"
  proof (rule nth_equalityI)
    show "length (map (\<lambda>i. rank (recalc cs ! i)) ?is) = length (map (\<lambda>p. int p + 1) [0..<length cs])"
      by (simp add: length_sorted_refs)
    fix p assume "p < length (map (\<lambda>i. rank (recalc cs ! i)) ?is)"
    then have p: "p < length cs" by (simp add: length_sorted_refs)
    then show "map (\<lambda>i. rank (recalc cs ! i)) ?is ! p = map (\<lambda>p. int p + 1) [0..<length cs] ! p"
      using recalc_at_ref [OF p] by (simp add: length_sorted_refs rank_set_rank)
  qed
  then have "mset (map (\<lambda>i. rank (recalc cs ! i)) ?is) = mset (map (\<lambda>p. int p + 1) [0..<length cs])"
    by simp
  moreover have "mset (map (\<lambda>i. rank (recalc cs ! i)) ?is) = mset (map (\<lambda>i. rank (recalc cs ! i)) [0..<length cs])"
    using m by simp
  moreover have "map (\<lambda>i. rank (recalc cs ! i)) [0..<length cs] = map rank (recalc cs)"
    by (rule nth_equalityI) (simp_all add: length_recalc)
  ultimately show ?thesis by simp
qed


lemma recalc_delta:
  assumes "i < length cs"
  shows "delta (recalc cs ! i) = freezeRank (recalc cs ! i) - rank (recalc cs ! i)"
proof -
  obtain p where p: "p < length cs" "sorted_refs cs ! p = i" using assms by (rule ref_pos)
  have "recalc cs ! i = set_rank (int p + 1) (cs ! i)"
    using recalc_at_ref [OF p(1)] p(2) by simp
  then show ?thesis by (simp add: set_rank_def)
qed

lemma ranks_image: "(\<lambda>p. int p + 1) ` {0..<n} = {1..int n}"
proof (rule set_eqI)
  fix r :: int
  show "r \<in> (\<lambda>p. int p + 1) ` {0..<n} \<longleftrightarrow> r \<in> {1..int n}"
  proof
    assume "r \<in> (\<lambda>p. int p + 1) ` {0..<n}"
    then show "r \<in> {1..int n}" by auto
  next
    assume r: "r \<in> {1..int n}"
    then have "nat (r - 1) \<in> {0..<n}" and "r = int (nat (r - 1)) + 1" by auto
    then show "r \<in> (\<lambda>p. int p + 1) ` {0..<n}" by (rule_tac x = "nat (r - 1)" in image_eqI) auto
  qed
qed

section \<open>Lemmas on the two reveal modes\<close>

lemmas step_defs = nextSubmission_def step_begin_def step_verdict_def step_climb_def
  step_end_def trackPersistence_def recalcRanks_def finishReveal_def Let_def

lemma findContestant_cong:
  "map handle cs = map handle cs' \<Longrightarrow> findContestant h cs = findContestant h cs'"
  unfolding findContestant_def
proof (induction cs arbitrary: cs')
  case Nil
  then show ?case by simp
next
  case (Cons c cs)
  then obtain c' cs'' where "cs' = c' # cs''" by (cases cs') auto
  with Cons show ?case by auto
qed

lemma findContestant_Some: "findContestant h cs = Some i \<Longrightarrow> i < length cs \<and> handle (cs ! i) = h"
  unfolding findContestant_def by (drule findIndex_Some) simp

lemma map_list_update_same:
  assumes "i < length xs \<Longrightarrow> f y = f (xs ! i)"
  shows "map f (xs[i := y]) = map f xs"
proof (cases "i < length xs")
  case True
  then have "(map f xs)[i := f (xs ! i)] = map f xs"
    by (metis list_update_id nth_map)
  then show ?thesis using assms True by (simp add: map_update)
next
  case False
  then show ?thesis by (simp add: list_update_beyond)
qed

lemma handle_scoreAccepted: "handle (scoreAccepted sub c) = handle c"
  by (simp add: scoreAccepted_def)

lemma handle_markRejected: "handle (markRejected sub c) = handle c"
  by (simp add: markRejected_def)

lemma solved_markRejected: "solved (markRejected sub c) = solved c"
  by (simp add: markRejected_def)

lemma penalty_markRejected: "penalty (markRejected sub c) = penalty c"
  by (simp add: markRejected_def)

lemma rank_markRejected: "rank (markRejected sub c) = rank c"
  by (simp add: markRejected_def)

lemma handle_recalc: "map handle (recalc cs) = map handle cs"
  by (rule recalc_keeps) (rule handle_set_rank)

lemma solved_recalc: "map solved (recalc cs) = map solved cs"
  by (rule recalc_keeps) (rule solved_set_rank)

lemma penalty_recalc: "map penalty (recalc cs) = map penalty cs"
  by (rule recalc_keeps) (rule penalty_set_rank)

text \<open>The three outcomes of one step, field by field.\<close>

lemma step_unknown:
  assumes "\<not> processing st" "\<not> revealFinished st" "queue st = sub # rest"
    and "findContestant (s_handle sub) (state st) = None"
  shows "nextSubmission st = st\<lparr>queue := rest, revealed := revealed st + 1\<rparr>"
  using assms by (simp add: step_defs)

lemma step_accepted:
  assumes "\<not> processing st" "\<not> revealFinished st" "queue st = sub # rest"
    and "findContestant (s_handle sub) (state st) = Some i" and "s_verdict sub = ''OK''"
  shows "state (nextSubmission st) = recalc ((state st)[i := scoreAccepted sub (state st ! i)])"
    and "queue (nextSubmission st) = rest"
    and "submissionCounts (nextSubmission st) = submissionCounts (trackPersistence sub st)"
    and "mostPersistent (nextSubmission st) = mostPersistent (trackPersistence sub st)"
    and "lastMinuteHero (nextSubmission st) = heroOf sub"
    and "\<not> processing (nextSubmission st)" and "\<not> revealFinished (nextSubmission st)"
    and "playing (nextSubmission st) = playing st"
  using assms by (simp_all add: step_defs)

lemma step_rejected:
  assumes "\<not> processing st" "\<not> revealFinished st" "queue st = sub # rest"
    and "findContestant (s_handle sub) (state st) = Some i" and "s_verdict sub \<noteq> ''OK''"
  shows "state (nextSubmission st) = (state st)[i := markRejected sub (state st ! i)]"
    and "queue (nextSubmission st) = rest"
    and "submissionCounts (nextSubmission st) = submissionCounts (trackPersistence sub st)"
    and "mostPersistent (nextSubmission st) = mostPersistent (trackPersistence sub st)"
    and "lastMinuteHero (nextSubmission st) = lastMinuteHero st"
    and "mvp (nextSubmission st) = mvp st"
    and "rankChangeCount (nextSubmission st) = rankChangeCount st"
    and "\<not> processing (nextSubmission st)" and "\<not> revealFinished (nextSubmission st)"
    and "playing (nextSubmission st) = playing st"
  using assms by (simp_all add: step_defs)

lemma step_frame:
  assumes "\<not> processing st" "\<not> revealFinished st" "queue st = sub # rest"
  shows "queue (nextSubmission st) = rest" and "\<not> processing (nextSubmission st)"
    and "\<not> revealFinished (nextSubmission st)" and "playing (nextSubmission st) = playing st"
proof -
  have "queue (nextSubmission st) = rest \<and> \<not> processing (nextSubmission st)
        \<and> \<not> revealFinished (nextSubmission st) \<and> playing (nextSubmission st) = playing st"
  proof (cases "findContestant (s_handle sub) (state st)")
    case None
    then show ?thesis using assms by (simp add: step_unknown)
  next
    case (Some i)
    show ?thesis
    proof (cases "s_verdict sub = ''OK''")
      case True
      then show ?thesis using step_accepted [OF assms Some] by simp
    next
      case False
      then show ?thesis using step_rejected [OF assms Some] by simp
    qed
  qed
  then show "queue (nextSubmission st) = rest" and "\<not> processing (nextSubmission st)"
    and "\<not> revealFinished (nextSubmission st)" and "playing (nextSubmission st) = playing st"
    by simp_all
qed

lemma trackPersistence_frame:
  "state (trackPersistence sub st) = state st"
  "queue (trackPersistence sub st) = queue st"
  "lastMinuteHero (trackPersistence sub st) = lastMinuteHero st"
  "mvp (trackPersistence sub st) = mvp st"
  "acceptedCount (trackPersistence sub st) = acceptedCount st"
  "rankChangeCount (trackPersistence sub st) = rankChangeCount st"
  "revealed (trackPersistence sub st) = revealed st"
  by (simp_all add: trackPersistence_def Let_def)

lemma trackPersistence_cong:
  assumes "submissionCounts s = submissionCounts b" and "mostPersistent s = mostPersistent b"
  shows "submissionCounts (trackPersistence sub s) = submissionCounts (trackPersistence sub b)"
    and "mostPersistent (trackPersistence sub s) = mostPersistent (trackPersistence sub b)"
  using assms by (simp_all add: trackPersistence_def Let_def)

lemma revealOne_unknown:
  "findContestant (s_handle sub) (state st) = None \<Longrightarrow> revealOne sub st = st"
  by (simp add: revealOne_def)

lemma revealOne_accepted:
  assumes "findContestant (s_handle sub) (state st) = Some i" and "s_verdict sub = ''OK''"
  shows "state (revealOne sub st) = (state st)[i := scoreAccepted sub (state st ! i)]"
    and "submissionCounts (revealOne sub st) = submissionCounts (trackPersistence sub st)"
    and "mostPersistent (revealOne sub st) = mostPersistent (trackPersistence sub st)"
    and "lastMinuteHero (revealOne sub st) =
           (if s_relativeTimeSec sub > hero_time (lastMinuteHero st) then heroOf sub
            else lastMinuteHero st)"
  using assms by (simp_all add: revealOne_def Let_def trackPersistence_frame)

lemma revealOne_rejected:
  assumes "findContestant (s_handle sub) (state st) = Some i" and "s_verdict sub \<noteq> ''OK''"
  shows "revealOne sub st = trackPersistence sub st"
  using assms by (simp add: revealOne_def Let_def)

lemma scoreAccepted_keys:
  "solved (scoreAccepted sub c) = solved c + 1"
  "penalty (scoreAccepted sub c) =
     penalty c + (s_relativeTimeSec sub div 60 + WA_PENALTY_MINUTES * waBefore sub)"
  by (simp_all add: scoreAccepted_def)

lemma map_update_cong:
  assumes "map f xs = map f ys" and "f x = g (f (xs ! i))" and "f y = g (f (ys ! i))"
  shows "map f (xs[i := x]) = map f (ys[i := y])"
proof -
  have len: "length xs = length ys" using assms(1) by (rule map_eq_imp_length_eq)
  show ?thesis
  proof (cases "i < length xs")
    case True
    have "map f xs ! i = map f ys ! i" using assms(1) by simp
    then have "f (xs ! i) = f (ys ! i)" using True len by simp
    then show ?thesis using assms by (simp add: map_update)
  next
    case False
    then show ?thesis using assms(1) len by (simp add: list_update_beyond)
  qed
qed

lemma agree_step:
  assumes ag: "agree s b" and np: "\<not> processing s" and nf: "\<not> revealFinished s"
    and q: "queue s = sub # rest"
  shows "agree (nextSubmission s) (revealOne sub (b\<lparr>queue := rest, revealed := revealed b + 1\<rparr>))"
proof -
  let ?b = "b\<lparr>queue := rest, revealed := revealed b + 1\<rparr>"
  have h: "map handle (state s) = map handle (state b)"
    and so: "map solved (state s) = map solved (state b)"
    and pe: "map penalty (state s) = map penalty (state b)"
    and sc: "submissionCounts s = submissionCounts ?b"
    and mp: "mostPersistent s = mostPersistent ?b"
    using ag by (simp_all add: agree_def)
  have fc: "findContestant (s_handle sub) (state ?b) = findContestant (s_handle sub) (state s)"
    using findContestant_cong [OF h] by simp
  show ?thesis
  proof (cases "findContestant (s_handle sub) (state s)")
    case None
    then have "revealOne sub ?b = ?b" using fc by (simp add: revealOne_unknown)
    moreover have "nextSubmission s = s\<lparr>queue := rest, revealed := revealed s + 1\<rparr>"
      using np nf q None by (rule step_unknown)
    ultimately show ?thesis using ag by (simp add: agree_def)
  next
    case (Some i)
    then have fb: "findContestant (s_handle sub) (state ?b) = Some i" using fc by simp
    show ?thesis
    proof (cases "s_verdict sub = ''OK''")
      case True
      note sa = step_accepted [OF np nf q Some True]
      note ba = revealOne_accepted [OF fb True]
      have "map handle (state (nextSubmission s)) = map handle (state (revealOne sub ?b))"
        using h by (simp add: sa ba handle_recalc map_list_update_same handle_scoreAccepted)
      moreover have "map solved (state (nextSubmission s)) = map solved (state (revealOne sub ?b))"
        using so
        by (simp add: sa ba solved_recalc
            map_update_cong [where f = solved and g = "\<lambda>x. x + 1"] scoreAccepted_keys)
      moreover have "map penalty (state (nextSubmission s)) = map penalty (state (revealOne sub ?b))"
        using pe
        by (simp add: sa ba penalty_recalc
            map_update_cong [where f = penalty and g = "\<lambda>x. x + (s_relativeTimeSec sub div 60 + WA_PENALTY_MINUTES * waBefore sub)"]
            scoreAccepted_keys)
      ultimately show ?thesis
        using trackPersistence_cong [OF sc mp, of sub] by (simp add: agree_def sa ba)
    next
      case False
      note sr = step_rejected [OF np nf q Some False]
      have rb: "revealOne sub ?b = trackPersistence sub ?b"
        using fb False by (rule revealOne_rejected)
      show ?thesis
        using h so pe trackPersistence_cong [OF sc mp, of sub]
        by (simp add: agree_def sr rb trackPersistence_frame map_list_update_same
            handle_markRejected solved_markRejected penalty_markRejected)
    qed
  qed
qed

lemma agree_run:
  assumes "agree s b" and "\<not> processing s" and "\<not> revealFinished s" and "queue s = q"
  shows "agree ((nextSubmission ^^ length q) s) (revealLoop q b)"
  using assms
proof (induction q arbitrary: s b)
  case Nil
  then show ?case by simp
next
  case (Cons sub rest)
  let ?s = "nextSubmission s"
  let ?b = "revealOne sub (b\<lparr>queue := rest, revealed := revealed b + 1\<rparr>)"
  have "agree ((nextSubmission ^^ length rest) ?s) (revealLoop rest ?b)"
    using Cons.prems
    by (intro Cons.IH agree_step step_frame [of s sub rest]) simp_all
  then show ?case by (simp add: funpow_swap1)
qed

lemma run_frame:
  assumes "\<not> processing s" and "\<not> revealFinished s" and "queue s = q"
  shows "queue ((nextSubmission ^^ length q) s) = [] \<and> \<not> processing ((nextSubmission ^^ length q) s)
     \<and> \<not> revealFinished ((nextSubmission ^^ length q) s)
     \<and> playing ((nextSubmission ^^ length q) s) = playing s"
  using assms
proof (induction q arbitrary: s)
  case Nil
  then show ?case by simp
next
  case (Cons sub rest)
  note f = step_frame [OF Cons.prems(1,2,3)]
  have "queue ((nextSubmission ^^ length rest) (nextSubmission s)) = []
     \<and> \<not> processing ((nextSubmission ^^ length rest) (nextSubmission s))
     \<and> \<not> revealFinished ((nextSubmission ^^ length rest) (nextSubmission s))
     \<and> playing ((nextSubmission ^^ length rest) (nextSubmission s)) = playing (nextSubmission s)"
    by (rule Cons.IH) (simp_all add: f)
  then show ?case by (simp add: funpow_swap1 f)
qed

lemma autoTick_run:
  assumes "playing s" and "\<not> processing s" and "\<not> revealFinished s" and "queue s = q"
  shows "autoTick s = Some (finishReveal (stopAuto ((nextSubmission ^^ length q) s)))"
  using assms
proof (induction q arbitrary: s)
  case Nil
  then show ?case by (subst autoTick.simps) (simp add: stopAuto_def)
next
  case (Cons sub rest)
  note f = step_frame [OF Cons.prems(2,3,4)]
  have "autoTick (nextSubmission s)
        = Some (finishReveal (stopAuto ((nextSubmission ^^ length rest) (nextSubmission s))))"
    by (rule Cons.IH) (simp_all add: f Cons.prems)
  moreover have "autoTick s = autoTick (nextSubmission s)"
    using Cons.prems f by (subst autoTick.simps) simp
  ultimately show ?case by (simp add: funpow_swap1)
qed

lemma mvpScan_frame:
  "state (mvpScan old st c) = state st"
  "submissionCounts (mvpScan old st c) = submissionCounts st"
  "mostPersistent (mvpScan old st c) = mostPersistent st"
  "lastMinuteHero (mvpScan old st c) = lastMinuteHero st"
  "queue (mvpScan old st c) = queue st"
  "revealed (mvpScan old st c) = revealed st"
  "acceptedCount (mvpScan old st c) = acceptedCount st"
  by (simp_all add: mvpScan_def Let_def)

lemma mvpScan_fold_frame:
  "state (foldl (mvpScan old) st cs) = state st
   \<and> submissionCounts (foldl (mvpScan old) st cs) = submissionCounts st
   \<and> mostPersistent (foldl (mvpScan old) st cs) = mostPersistent st
   \<and> lastMinuteHero (foldl (mvpScan old) st cs) = lastMinuteHero st
   \<and> queue (foldl (mvpScan old) st cs) = queue st
   \<and> revealed (foldl (mvpScan old) st cs) = revealed st
   \<and> acceptedCount (foldl (mvpScan old) st cs) = acceptedCount st"
  by (induction cs arbitrary: st) (simp_all add: mvpScan_frame)

lemma revealAll_fields:
  "state (revealAll True st) = recalc (state (revealLoop (queue st) (stopAuto st)))"
  "submissionCounts (revealAll True st) = submissionCounts (revealLoop (queue st) (stopAuto st))"
  "mostPersistent (revealAll True st) = mostPersistent (revealLoop (queue st) (stopAuto st))"
  "lastMinuteHero (revealAll True st) = lastMinuteHero (revealLoop (queue st) (stopAuto st))"
  by (simp_all add: revealAll_def Let_def finishReveal_def mvpScan_fold_frame recalcRanks_def
      stopAuto_def)

lemma rank_key_maps:
  assumes "map solved cs = map solved cs'" and "map penalty cs = map penalty cs'"
  shows "map rank_key cs = map rank_key cs'"
proof (rule nth_equalityI)
  have len: "length cs = length cs'" using assms(1) by (rule map_eq_imp_length_eq)
  then show "length (map rank_key cs) = length (map rank_key cs')" by simp
  fix i assume "i < length (map rank_key cs)"
  then have i: "i < length cs" by simp
  have "map solved cs ! i = map solved cs' ! i" and "map penalty cs ! i = map penalty cs' ! i"
    using assms by simp_all
  then show "map rank_key cs ! i = map rank_key cs' ! i"
    using i len by (simp add: rank_key_def)
qed

lemma ranked_recalc: "ranked (recalc cs)"
  by (simp add: ranked_def recalc_idem)

lemma ranked_keeps:
  assumes "ranked cs" and "map solved cs' = map solved cs" and "map penalty cs' = map penalty cs"
    and "map rank cs' = map rank cs"
  shows "ranked cs'"
proof -
  have "map rank (recalc cs') = map rank (recalc cs)"
    by (rule recalc_ranks_cong) (rule rank_key_maps [OF assms(2,3)])
  then show ?thesis using assms(1,4) by (simp add: ranked_def)
qed

lemma findContestant_None: "findContestant h cs = None \<longleftrightarrow> h \<notin> set (map handle cs)"
  unfolding findContestant_def by (induction cs) auto

lemma step_handles:
  assumes "\<not> processing s" "\<not> revealFinished s" "queue s = sub # rest"
  shows "map handle (state (nextSubmission s)) = map handle (state s)"
proof (cases "findContestant (s_handle sub) (state s)")
  case None
  then show ?thesis using assms by (simp add: step_unknown)
next
  case (Some i)
  show ?thesis
  proof (cases "s_verdict sub = ''OK''")
    case True
    then show ?thesis using step_accepted(1) [OF assms Some]
      by (simp add: handle_recalc map_list_update_same handle_scoreAccepted)
  next
    case False
    then show ?thesis using step_rejected(1) [OF assms Some]
      by (simp add: map_list_update_same handle_markRejected)
  qed
qed

lemma ranked_run:
  assumes "\<not> processing s" and "\<not> revealFinished s" and "queue s = q"
    and "ranked (state s)
         \<or> (\<exists>sub \<in> set q. s_verdict sub = ''OK'' \<and> s_handle sub \<in> set (map handle (state s)))"
  shows "ranked (state ((nextSubmission ^^ length q) s))"
  using assms
proof (induction q arbitrary: s)
  case Nil
  then show ?case by simp
next
  case (Cons sub rest)
  note f = step_frame [OF Cons.prems(1,2,3)]
  note h = step_handles [OF Cons.prems(1,2,3)]
  have "ranked (state (nextSubmission s))
        \<or> (\<exists>x \<in> set rest. s_verdict x = ''OK'' \<and> s_handle x \<in> set (map handle (state s)))"
  proof (cases "findContestant (s_handle sub) (state s)")
    case None
    then have "nextSubmission s = s\<lparr>queue := rest, revealed := revealed s + 1\<rparr>"
      using Cons.prems by (simp add: step_unknown)
    moreover have "s_handle sub \<notin> set (map handle (state s))"
      using None by (simp add: findContestant_None)
    ultimately show ?thesis using Cons.prems(4) by auto
  next
    case (Some i)
    show ?thesis
    proof (cases "s_verdict sub = ''OK''")
      case True
      then show ?thesis
        using step_accepted(1) [OF Cons.prems(1,2,3) Some] by (simp add: ranked_recalc)
    next
      case False
      have st: "state (nextSubmission s) = (state s)[i := markRejected sub (state s ! i)]"
        using step_rejected(1) [OF Cons.prems(1,2,3) Some False] .
      have "ranked (state s) \<Longrightarrow> ranked (state (nextSubmission s))"
        by (erule ranked_keeps)
          (simp_all add: st map_list_update_same solved_markRejected penalty_markRejected
            rank_markRejected)
      then show ?thesis using Cons.prems(4) False by auto
    qed
  qed
  then have "ranked (state ((nextSubmission ^^ length rest) (nextSubmission s)))"
    by (intro Cons.IH) (simp_all add: f h)
  then show ?case by (simp add: funpow_swap1)
qed

lemma hero_run:
  assumes "agree s b" and "\<not> processing s" and "\<not> revealFinished s" and "queue s = q"
    and "lastMinuteHero s = lastMinuteHero b"
    and "sorted_wrt (<) (hero_time (lastMinuteHero s) # map s_relativeTimeSec q)"
  shows "lastMinuteHero ((nextSubmission ^^ length q) s) = lastMinuteHero (revealLoop q b)"
  using assms
proof (induction q arbitrary: s b)
  case Nil
  then show ?case by simp
next
  case (Cons sub rest)
  let ?bq = "b\<lparr>queue := rest, revealed := revealed b + 1\<rparr>"
  let ?b = "revealOne sub ?bq"
  note f = step_frame [OF Cons.prems(2,3,4)]
  have ag: "agree (nextSubmission s) ?b"
    using Cons.prems(1,2,3,4) by (rule agree_step)
  have fc: "findContestant (s_handle sub) (state ?bq) = findContestant (s_handle sub) (state s)"
    using findContestant_cong [of "state s" "state b"] Cons.prems(1) by (simp add: agree_def)
  have lt: "hero_time (lastMinuteHero s) < s_relativeTimeSec sub"
    and rest: "sorted_wrt (<) (s_relativeTimeSec sub # map s_relativeTimeSec rest)"
    and rest': "sorted_wrt (<) (hero_time (lastMinuteHero s) # map s_relativeTimeSec rest)"
    using Cons.prems(6) by auto
  have "lastMinuteHero (nextSubmission s) = lastMinuteHero ?b
        \<and> sorted_wrt (<) (hero_time (lastMinuteHero (nextSubmission s)) # map s_relativeTimeSec rest)"
  proof (cases "findContestant (s_handle sub) (state s)")
    case None
    then have "nextSubmission s = s\<lparr>queue := rest, revealed := revealed s + 1\<rparr>"
      using Cons.prems by (simp add: step_unknown)
    moreover have "?b = ?bq" using None fc by (simp add: revealOne_unknown)
    ultimately show ?thesis using Cons.prems(5) rest' by simp
  next
    case (Some i)
    then have fb: "findContestant (s_handle sub) (state ?bq) = Some i" using fc by simp
    show ?thesis
    proof (cases "s_verdict sub = ''OK''")
      case True
      have "lastMinuteHero (nextSubmission s) = heroOf sub"
        using step_accepted(5) [OF Cons.prems(2,3,4) Some True] .
      moreover have "lastMinuteHero ?b = heroOf sub"
        using revealOne_accepted(4) [OF fb True] lt Cons.prems(5) by simp
      ultimately show ?thesis using rest by (simp add: heroOf_def)
    next
      case False
      have "lastMinuteHero (nextSubmission s) = lastMinuteHero s"
        using step_rejected(5) [OF Cons.prems(2,3,4) Some False] .
      moreover have "lastMinuteHero ?b = lastMinuteHero b"
        using revealOne_rejected [OF fb False] by (simp add: trackPersistence_frame)
      ultimately show ?thesis using Cons.prems(5) rest' by simp
    qed
  qed
  then have "lastMinuteHero ((nextSubmission ^^ length rest) (nextSubmission s))
             = lastMinuteHero (revealLoop rest ?b)"
    using Cons.IH [OF ag f(2) f(3) f(1)] by blast
  then show ?case by (simp add: funpow_swap1)
qed

lemma agree_stopAuto: "agree s (stopAuto s)"
  by (simp add: agree_def stopAuto_def)

lemmas eval_defs = nextSubmission_def step_begin_def step_verdict_def step_climb_def
  step_end_def trackPersistence_def recalcRanks_def finishReveal_def stopAuto_def
  findContestant_def sub_key_def scoreAccepted_def markRejected_def cellSolved_def heroOf_def
  waBefore_def WA_PENALTY_MINUTES_def recalc_def sorted_refs_def sort_cmp_def rank_cmp_def
  set_rank_def revealAll_def revealOne_def snapshotRanks_def mvpScan_def oldRankOf_def Let_def

lemma nth_update_probs:
  "probs ((cs[i := c]) ! j) p = (if j = i \<and> i < length cs then probs c p else probs (cs ! j) p)"
  by (cases "i < length cs") (auto simp: nth_list_update list_update_beyond)

lemma revealAll_alt:
  "revealAll True st =
     finishReveal (foldl (mvpScan (snapshotRanks (state st)))
       (recalcRanks (revealLoop (queue st) (stopAuto st)))
       (state (recalcRanks (revealLoop (queue st) (stopAuto st)))))"
  by (simp add: revealAll_def Let_def stopAuto_def)

section \<open>Lemmas on the clock\<close>

lemma tick_frame:
  "contestDurationSec (fst (updateTimerDisplay now k)) = contestDurationSec k"
  "freezeAtSec (fst (updateTimerDisplay now k)) = freezeAtSec k"
  "contestStartTimestamp (fst (updateTimerDisplay now k)) = contestStartTimestamp k"
  "timeScale (fst (updateTimerDisplay now k)) = timeScale k"
  by (simp_all add: updateTimerDisplay_def Let_def enterFrozenPhase_def
      enterContestEndedPhase_def stopContestTimer_def)

lemma tick_elapsed: "elapsedSec (fst (updateTimerDisplay now k)) t = elapsedSec k t"
  by (simp add: elapsedSec_def tick_frame)

lemma tick_fired:
  "firedEnd (snd (updateTimerDisplay now k))
     \<longleftrightarrow> contestDurationSec k \<le> elapsedSec k now
          \<and> (currentPhase k = Live \<or> currentPhase k = Frozen)"
  by (auto simp: updateTimerDisplay_def Let_def enterFrozenPhase_def)

lemma tick_phase_fired:
  "firedEnd (snd (updateTimerDisplay now k)) \<Longrightarrow>
     currentPhase (fst (updateTimerDisplay now k)) = Ended
     \<and> \<not> timerRunning (fst (updateTimerDisplay now k))"
  by (simp add: updateTimerDisplay_def Let_def enterContestEndedPhase_def stopContestTimer_def)

lemma tick_phase_not_fired:
  assumes "\<not> firedEnd (snd (updateTimerDisplay now k))"
  shows "currentPhase (fst (updateTimerDisplay now k)) = Ended \<longleftrightarrow> currentPhase k = Ended"
    and "(currentPhase (fst (updateTimerDisplay now k)) = Live
          \<or> currentPhase (fst (updateTimerDisplay now k)) = Frozen)
         \<longleftrightarrow> (currentPhase k = Live \<or> currentPhase k = Frozen)"
  using assms
  by (auto simp: updateTimerDisplay_def Let_def enterFrozenPhase_def split: if_splits)

lemma tick_clamped:
  "remainingSec (snd (updateTimerDisplay now k)) = max 0 (contestDurationSec k - elapsedSec k now)"
  "remainingUntilFreezeSec (snd (updateTimerDisplay now k)) = max 0 (freezeAtSec k - elapsedSec k now)"
  by (simp_all add: updateTimerDisplay_def Let_def)

lemma runTicks_Cons:
  "runTicks (now # nows) k
     = snd (updateTimerDisplay now k) # runTicks nows (fst (updateTimerDisplay now k))"
  by (simp add: split_def)

lemma runTicks_ended:
  "currentPhase k = Ended \<Longrightarrow> map firedEnd (runTicks nows k) = map (\<lambda>_. False) nows"
proof (induction nows arbitrary: k)
  case Nil
  show ?case by simp
next
  case (Cons now nows)
  have nf: "\<not> firedEnd (snd (updateTimerDisplay now k))"
    using Cons.prems by (simp add: tick_fired)
  then have "currentPhase (fst (updateTimerDisplay now k)) = Ended"
    using Cons.prems by (simp add: tick_phase_not_fired)
  then have "map firedEnd (runTicks nows (fst (updateTimerDisplay now k))) = map (\<lambda>_. False) nows"
    by (rule Cons.IH)
  with nf show ?case by (simp add: runTicks_Cons del: runTicks.simps)
qed

lemma runTicks_fires_once:
  assumes "currentPhase k = Live \<or> currentPhase k = Frozen"
  shows "map firedEnd (runTicks nows k)
         = firstOnly (map (\<lambda>now. contestDurationSec k \<le> elapsedSec k now) nows)"
  using assms
proof (induction nows arbitrary: k)
  case Nil
  show ?case by simp
next
  case (Cons now nows)
  let ?k = "fst (updateTimerDisplay now k)"
  show ?case
  proof (cases "contestDurationSec k \<le> elapsedSec k now")
    case True
    then have f: "firedEnd (snd (updateTimerDisplay now k))"
      using Cons.prems by (simp add: tick_fired)
    then have "currentPhase ?k = Ended" by (simp add: tick_phase_fired)
    then have "map firedEnd (runTicks nows ?k) = map (\<lambda>_. False) nows"
      by (rule runTicks_ended)
    with f True show ?thesis by (simp add: runTicks_Cons comp_def del: runTicks.simps)
  next
    case False
    then have nf: "\<not> firedEnd (snd (updateTimerDisplay now k))"
      by (simp add: tick_fired)
    then have "currentPhase ?k = Live \<or> currentPhase ?k = Frozen"
      using Cons.prems by (simp add: tick_phase_not_fired)
    then have "map firedEnd (runTicks nows ?k)
        = firstOnly (map (\<lambda>now. contestDurationSec ?k \<le> elapsedSec ?k now) nows)"
      by (rule Cons.IH)
    with nf False show ?thesis by (simp add: runTicks_Cons tick_frame tick_elapsed del: runTicks.simps)
  qed
qed

lemma firstOnly_at_most_one: "length (filter (\<lambda>b. b) (firstOnly bs)) \<le> 1"
  by (induction bs) auto

lemma runTicks_clamped:
  "out \<in> set (runTicks nows k) \<Longrightarrow> 0 \<le> remainingSec out \<and> 0 \<le> remainingUntilFreezeSec out"
proof (induction nows arbitrary: k)
  case Nil
  then show ?case by simp
next
  case (Cons now nows)
  then show ?case by (auto simp: runTicks_Cons tick_clamped simp del: runTicks.simps)
qed

section \<open>Lemmas on the awards\<close>



lemma revealOne_handles: "map handle (state (revealOne sub st)) = map handle (state st)"
proof (cases "findContestant (s_handle sub) (state st)")
  case None
  then show ?thesis by (simp add: revealOne_unknown)
next
  case (Some i)
  show ?thesis
  proof (cases "s_verdict sub = ''OK''")
    case True
    then show ?thesis
      using revealOne_accepted(1) [OF Some] by (simp add: map_list_update_same handle_scoreAccepted)
  next
    case False
    then show ?thesis
      using revealOne_rejected [OF Some] by (simp add: trackPersistence_frame)
  qed
qed





lemma revealLoop_handles: "map handle (state (revealLoop q st)) = map handle (state st)"
  by (induction q arbitrary: st) (simp_all add: revealOne_handles)















section \<open>The claims\<close>

text \<open>C1 (as stated, refuted): the two modes do not always end in the same state.
  On \<open>ex_race\<close> contestant b climbs from rank 3 to rank 1 and is then overtaken by x; step
  mode keeps the largest climb seen on the way (MVP b with 2), batch mode computes the net
  change from the ranks at its start (MVP b with 1). On \<open>ex_tied\<close> the queue holds one
  rejected submission: step mode never ranks and keeps the frozen ranks 1 and 1 of the tied
  contestants, batch mode ranks once and gives 1 and 2. On \<open>ex_unordered\<close> two
  acceptances come in descending time: step mode keeps the one processed last, batch mode
  the one with the later time.\<close>

theorem batch_step_counterexample:
  "autoTick ex_race = Some (finishReveal (stopAuto (nextSubmission (nextSubmission ex_race))))
   \<and> mvp (finishReveal (stopAuto (nextSubmission (nextSubmission ex_race))))
       = \<lparr>mvp_handle = ''b'', mvp_delta = 2\<rparr>
   \<and> mvp (revealAll True ex_race) = \<lparr>mvp_handle = ''b'', mvp_delta = 1\<rparr>
   \<and> autoTick ex_tied = Some (finishReveal (stopAuto (nextSubmission ex_tied)))
   \<and> map rank (state (finishReveal (stopAuto (nextSubmission ex_tied)))) = [1, 1]
   \<and> map rank (state (revealAll True ex_tied)) = [1, 2]
   \<and> autoTick ex_unordered
       = Some (finishReveal (stopAuto (nextSubmission (nextSubmission ex_unordered))))
   \<and> hero_handle (lastMinuteHero (finishReveal (stopAuto (nextSubmission (nextSubmission ex_unordered)))))
       = ''x''
   \<and> hero_handle (lastMinuteHero (revealAll True ex_unordered)) = ''y''"
proof -
  have "autoTick ex_race
        = Some (finishReveal (stopAuto ((nextSubmission ^^ length (queue ex_race)) ex_race)))"
    by (rule autoTick_run) (simp_all add: ex_modes_simps)
  moreover have "length (queue ex_race) = Suc (Suc 0)" by (simp add: ex_modes_simps)
  ultimately have a: "autoTick ex_race
        = Some (finishReveal (stopAuto (nextSubmission (nextSubmission ex_race))))"
    by simp
  have b: "mvp (finishReveal (stopAuto (nextSubmission (nextSubmission ex_race))))
       = \<lparr>mvp_handle = ''b'', mvp_delta = 2\<rparr>"
    by (simp add: ex_modes_simps eval_defs)
  have c: "mvp (revealAll True ex_race) = \<lparr>mvp_handle = ''b'', mvp_delta = 1\<rparr>"
    by (simp add: ex_modes_simps eval_defs)
  have "autoTick ex_tied
        = Some (finishReveal (stopAuto ((nextSubmission ^^ length (queue ex_tied)) ex_tied)))"
    by (rule autoTick_run) (simp_all add: ex_modes_simps)
  moreover have "length (queue ex_tied) = Suc 0" by (simp add: ex_modes_simps)
  ultimately have d: "autoTick ex_tied = Some (finishReveal (stopAuto (nextSubmission ex_tied)))"
    by simp
  have e: "map rank (state (finishReveal (stopAuto (nextSubmission ex_tied)))) = [1, 1]"
    "map rank (state (revealAll True ex_tied)) = [1, 2]"
    by (simp_all add: ex_modes_simps eval_defs)
  have "autoTick ex_unordered
        = Some (finishReveal (stopAuto ((nextSubmission ^^ length (queue ex_unordered)) ex_unordered)))"
    by (rule autoTick_run) (simp_all add: ex_modes_simps)
  moreover have "length (queue ex_unordered) = Suc (Suc 0)" by (simp add: ex_modes_simps)
  ultimately have f: "autoTick ex_unordered
        = Some (finishReveal (stopAuto (nextSubmission (nextSubmission ex_unordered))))"
    by simp
  have g: "hero_handle (lastMinuteHero (finishReveal (stopAuto (nextSubmission (nextSubmission ex_unordered))))) = ''x''"
    "hero_handle (lastMinuteHero (revealAll True ex_unordered)) = ''y''"
    by (simp_all add: ex_modes_simps eval_defs)
  from a b c d e f g show ?thesis by simp
qed

text \<open>C1 (amended): from a reveal state with no step in flight, auto-play (the step applied
  until the queue is empty) ends, and its final state has the same solved counts,
  penalties, submission counts and persistence candidate as batch mode on the same state.
  The ranks are the same when the queue holds an accepted submission of a known contestant
  (step mode ranks only after an acceptance, batch mode always), and the last-minute
  candidate is the same when the queue is strictly time-ordered and later than the tracked
  last-minute time. Nothing is said about the MVP.\<close>

theorem batch_step_agreement:
  assumes "playing st" and "\<not> processing st" and "\<not> revealFinished st"
  shows "\<exists>s. autoTick st = Some s
     \<and> map solved (state s) = map solved (state (revealAll True st))
     \<and> map penalty (state s) = map penalty (state (revealAll True st))
     \<and> submissionCounts s = submissionCounts (revealAll True st)
     \<and> mostPersistent s = mostPersistent (revealAll True st)
     \<and> ((\<exists>sub \<in> set (queue st). s_verdict sub = ''OK''
            \<and> findContestant (s_handle sub) (state st) \<noteq> None)
          \<longrightarrow> map rank (state s) = map rank (state (revealAll True st)))
     \<and> (sorted_wrt (<) (hero_time (lastMinuteHero st) # map s_relativeTimeSec (queue st))
          \<longrightarrow> lastMinuteHero s = lastMinuteHero (revealAll True st))"
proof -
  let ?n = "length (queue st)"
  let ?sN = "(nextSubmission ^^ ?n) st"
  let ?bN = "revealLoop (queue st) (stopAuto st)"
  let ?s = "finishReveal (stopAuto ?sN)"
  have run: "autoTick st = Some ?s"
    using assms by (intro autoTick_run) simp_all
  have ag: "agree ?sN ?bN"
    using assms by (intro agree_run agree_stopAuto) simp_all
  have st: "state ?s = state ?sN" "submissionCounts ?s = submissionCounts ?sN"
    "mostPersistent ?s = mostPersistent ?sN" "lastMinuteHero ?s = lastMinuteHero ?sN"
    by (simp_all add: finishReveal_def stopAuto_def)
  have so: "map solved (state ?s) = map solved (state (revealAll True st))"
    using ag by (simp add: st revealAll_fields solved_recalc agree_def)
  have pe: "map penalty (state ?s) = map penalty (state (revealAll True st))"
    using ag by (simp add: st revealAll_fields penalty_recalc agree_def)
  have sc: "submissionCounts ?s = submissionCounts (revealAll True st)"
    using ag by (simp add: st revealAll_fields agree_def)
  have mp: "mostPersistent ?s = mostPersistent (revealAll True st)"
    using ag by (simp add: st revealAll_fields agree_def)
  have rk: "map rank (state ?s) = map rank (state (revealAll True st))"
    if "\<exists>sub \<in> set (queue st). s_verdict sub = ''OK''
          \<and> findContestant (s_handle sub) (state st) \<noteq> None"
  proof -
    have "ranked (state ?sN)"
      using assms that by (intro ranked_run) (simp_all add: findContestant_None)
    then have "map rank (state ?sN) = map rank (recalc (state ?sN))"
      by (simp add: ranked_def)
    also have "\<dots> = map rank (recalc (state ?bN))"
      using ag by (intro recalc_ranks_cong rank_key_maps) (simp_all add: agree_def)
    finally show ?thesis by (simp add: st revealAll_fields)
  qed
  have lm: "lastMinuteHero ?s = lastMinuteHero (revealAll True st)"
    if "sorted_wrt (<) (hero_time (lastMinuteHero st) # map s_relativeTimeSec (queue st))"
  proof -
    have "lastMinuteHero ?sN = lastMinuteHero ?bN"
      using assms that by (intro hero_run agree_stopAuto) (simp_all add: stopAuto_def)
    then show ?thesis by (simp add: st revealAll_fields)
  qed
  show ?thesis
    using run so pe sc mp rk lm by blast
qed

theorem batch_step_agreement_witness:
  "playing ex_race \<and> \<not> processing ex_race \<and> \<not> revealFinished ex_race
   \<and> (\<exists>s. autoTick ex_race = Some s
     \<and> map solved (state s) = map solved (state (revealAll True ex_race))
     \<and> map penalty (state s) = map penalty (state (revealAll True ex_race))
     \<and> submissionCounts s = submissionCounts (revealAll True ex_race)
     \<and> mostPersistent s = mostPersistent (revealAll True ex_race)
     \<and> map rank (state s) = map rank (state (revealAll True ex_race))
     \<and> lastMinuteHero s = lastMinuteHero (revealAll True ex_race))"
proof -
  have h: "playing ex_race" "\<not> processing ex_race" "\<not> revealFinished ex_race"
    by (simp_all add: ex_race_simps)
  have a: "\<exists>sub \<in> set (queue ex_race). s_verdict sub = ''OK''
            \<and> findContestant (s_handle sub) (state ex_race) \<noteq> None"
    by (simp add: ex_race_simps findContestant_def)
  have b: "sorted_wrt (<) (hero_time (lastMinuteHero ex_race) # map s_relativeTimeSec (queue ex_race))"
    by (simp add: ex_race_simps)
  show ?thesis
    using batch_step_agreement [OF h] a b h by blast
qed

text \<open>C2 (violated by the code): on \<open>ex_resolved\<close> the cell of ann for problem D is
  already solved (3 solved, penalty 300, time 100); a further accepted submission on the
  same pair is scored again in both modes: solved becomes 4, the penalty 436 and the time
  of the cell 7000. The rejected branch checks the cell first (C5); the accepted branch
  does not.\<close>

theorem write_once_violated:
  "cellSolved (state ex_resolved ! 0) ''D''
   \<and> findContestant ''ann'' (state ex_resolved) = Some 0
   \<and> solved (state ex_resolved ! 0) = 3 \<and> penalty (state ex_resolved ! 0) = 300
   \<and> map_option cell_time (probs (state ex_resolved ! 0) ''D'') = Some 100
   \<and> solved (state (nextSubmission ex_resolved) ! 0) = 4
   \<and> penalty (state (nextSubmission ex_resolved) ! 0) = 436
   \<and> map_option cell_time (probs (state (nextSubmission ex_resolved) ! 0) ''D'') = Some 7000
   \<and> solved (state (revealAll True ex_resolved) ! 0) = 4
   \<and> penalty (state (revealAll True ex_resolved) ! 0) = 436
   \<and> map_option cell_time (probs (state (revealAll True ex_resolved) ! 0) ''D'') = Some 7000"
  by (simp add: ex_all_simps eval_defs)

text \<open>C3: an accepted submission of a known contestant adds exactly
  \<open>floor(relativeTimeSec / 60) + 20 * wrongAttemptsBefore\<close> to that contestant's penalty
  and leaves every other penalty as it is, in a step and in an iteration of the batch loop
  (a missing \<open>wrongAttemptsBefore\<close> counts as 0). At 754 seconds with 2 wrong attempts
  the penalty grows by 52.\<close>

theorem penalty_formula:
  assumes "s_verdict sub = ''OK''" and "findContestant (s_handle sub) (state st) = Some i"
  shows "(\<not> processing st \<and> \<not> revealFinished st \<and> queue st = sub # rest \<longrightarrow>
            map penalty (state (nextSubmission st))
              = (map penalty (state st))
                  [i := penalty (state st ! i) + (s_relativeTimeSec sub div 60 + 20 * waBefore sub)])
     \<and> map penalty (state (revealOne sub st))
          = (map penalty (state st))
              [i := penalty (state st ! i) + (s_relativeTimeSec sub div 60 + 20 * waBefore sub)]"
proof -
  let ?cs = "(state st)[i := scoreAccepted sub (state st ! i)]"
  have p: "map penalty ?cs
           = (map penalty (state st))
               [i := penalty (state st ! i) + (s_relativeTimeSec sub div 60 + 20 * waBefore sub)]"
    by (simp add: map_update scoreAccepted_keys WA_PENALTY_MINUTES_def)
  have "map penalty (state (nextSubmission st)) = map penalty ?cs"
    if "\<not> processing st" "\<not> revealFinished st" "queue st = sub # rest"
    using step_accepted(1) [OF that assms(2,1)] by (simp add: penalty_recalc)
  moreover have "map penalty (state (revealOne sub st)) = map penalty ?cs"
    using revealOne_accepted(1) [OF assms(2,1)] by simp
  ultimately show ?thesis using p by simp
qed

theorem penalty_formula_witness:
  "s_verdict (ex_sub ''ann'' ''D'' ''OK'' 754 (Some 2)) = ''OK''
   \<and> findContestant (s_handle (ex_sub ''ann'' ''D'' ''OK'' 754 (Some 2))) (state ex_penalty) = Some 0
   \<and> \<not> processing ex_penalty \<and> \<not> revealFinished ex_penalty
   \<and> queue ex_penalty = [ex_sub ''ann'' ''D'' ''OK'' 754 (Some 2)]
   \<and> map penalty (state ex_penalty) = [300]
   \<and> map penalty (state (nextSubmission ex_penalty)) = [300 + 52]
   \<and> map penalty (state (revealOne (ex_sub ''ann'' ''D'' ''OK'' 754 (Some 2)) ex_penalty)) = [300 + 52]"
proof -
  let ?sub = "ex_sub ''ann'' ''D'' ''OK'' 754 (Some 2)"
  have h: "s_verdict ?sub = ''OK''"
    "findContestant (s_handle ?sub) (state ex_penalty) = Some 0"
    by (simp_all add: ex_all_simps findContestant_def)
  have g: "\<not> processing ex_penalty" "\<not> revealFinished ex_penalty" "queue ex_penalty = [?sub]"
    by (simp_all add: ex_all_simps)
  have p: "map penalty (state ex_penalty) = [300]" "penalty (state ex_penalty ! 0) = 300"
    and w: "s_relativeTimeSec ?sub div 60 + 20 * waBefore ?sub = 52"
    by (simp_all add: ex_all_simps waBefore_def)
  show ?thesis
    using penalty_formula [OF h, of "[]"] h g p w by simp
qed

text \<open>C4: \<open>recalcRanks\<close> ranks by solved count descending, then penalty ascending, and
  contestants with equal solved count and penalty keep their input order; ranking again
  without a change in between changes nothing.\<close>

theorem ranking_order_stable:
  assumes "i < length (state st)" and "j < length (state st)"
    and "solved (state st ! j) < solved (state st ! i)
         \<or> (solved (state st ! i) = solved (state st ! j)
             \<and> penalty (state st ! i) < penalty (state st ! j))
         \<or> (solved (state st ! i) = solved (state st ! j)
             \<and> penalty (state st ! i) = penalty (state st ! j) \<and> i < j)"
  shows "rank (state (recalcRanks st) ! i) < rank (state (recalcRanks st) ! j)
         \<and> recalcRanks (recalcRanks st) = recalcRanks st"
proof -
  have "rank_key (state st ! i) < rank_key (state st ! j)
        \<or> (rank_key (state st ! i) = rank_key (state st ! j) \<and> i < j)"
    using assms(3) by (auto simp: rank_key_def less_prod_def)
  then have "rank (recalc (state st) ! i) < rank (recalc (state st) ! j)"
    using assms(1,2) by (intro recalc_rank_order) simp_all
  then show ?thesis by (simp add: recalcRanks_def recalc_idem)
qed

theorem ranking_order_stable_witness:
  "solved (state ex_board ! 0) < solved (state ex_board ! 1)
   \<and> rank (state (recalcRanks ex_board) ! 1) < rank (state (recalcRanks ex_board) ! 0)
   \<and> solved (state ex_board ! 2) = solved (state ex_board ! 0)
   \<and> penalty (state ex_board ! 2) < penalty (state ex_board ! 0)
   \<and> rank (state (recalcRanks ex_board) ! 2) < rank (state (recalcRanks ex_board) ! 0)
   \<and> solved (state ex_board ! 0) = solved (state ex_board ! 3)
   \<and> penalty (state ex_board ! 0) = penalty (state ex_board ! 3)
   \<and> rank (state (recalcRanks ex_board) ! 0) < rank (state (recalcRanks ex_board) ! 3)
   \<and> recalcRanks (recalcRanks ex_board) = recalcRanks ex_board"
proof -
  have a: "solved (state ex_board ! 0) < solved (state ex_board ! 1)"
    and b: "solved (state ex_board ! 2) = solved (state ex_board ! 0)
            \<and> penalty (state ex_board ! 2) < penalty (state ex_board ! 0)"
    and c: "solved (state ex_board ! 0) = solved (state ex_board ! 3)
            \<and> penalty (state ex_board ! 0) = penalty (state ex_board ! 3) \<and> (0::nat) < 3"
    and n: "length (state ex_board) = 4"
    by (simp_all add: ex_simps)
  show ?thesis
    using ranking_order_stable [of 1 ex_board 0] ranking_order_stable [of 2 ex_board 0]
      ranking_order_stable [of 0 ex_board 3] a b c n
    by simp
qed

text \<open>C5: a rejected submission processed by a step marks the cell failed only when the cell
  is not solved; a solved cell of any contestant is left as it is; no rank, delta, solved
  count or penalty changes, and neither the MVP nor the count of rank changes is touched,
  so no rank recomputation takes place.\<close>

theorem rejected_step:
  assumes "\<not> processing st" and "\<not> revealFinished st" and "queue st = sub # rest"
    and "findContestant (s_handle sub) (state st) = Some i"
    and "s_verdict sub \<noteq> ''OK''"
  shows "(cellSolved (state st ! i) (s_problemIndex sub) \<longrightarrow> state (nextSubmission st) = state st)
     \<and> (\<not> cellSolved (state st ! i) (s_problemIndex sub) \<longrightarrow>
          probs (state (nextSubmission st) ! i) (s_problemIndex sub)
            = Some \<lparr>cell_solved = False, cell_time = 0, cell_failed = True\<rparr>)
     \<and> (\<forall>j p. cellSolved (state st ! j) p \<longrightarrow>
          probs (state (nextSubmission st) ! j) p = probs (state st ! j) p)
     \<and> map rank (state (nextSubmission st)) = map rank (state st)
     \<and> map delta (state (nextSubmission st)) = map delta (state st)
     \<and> map solved (state (nextSubmission st)) = map solved (state st)
     \<and> map penalty (state (nextSubmission st)) = map penalty (state st)
     \<and> mvp (nextSubmission st) = mvp st
     \<and> rankChangeCount (nextSubmission st) = rankChangeCount st"
proof -
  note sr = step_rejected [OF assms(1,2,3,4,5)]
  have i: "i < length (state st)"
    using assms(4) by (simp add: findContestant_Some)
  have a: "cellSolved (state st ! i) (s_problemIndex sub) \<Longrightarrow> state (nextSubmission st) = state st"
    by (simp add: sr markRejected_def)
  have b: "\<not> cellSolved (state st ! i) (s_problemIndex sub) \<Longrightarrow>
          probs (state (nextSubmission st) ! i) (s_problemIndex sub)
            = Some \<lparr>cell_solved = False, cell_time = 0, cell_failed = True\<rparr>"
    using i by (simp add: sr markRejected_def)
  have c: "\<And>j p. cellSolved (state st ! j) p \<Longrightarrow>
          probs (state (nextSubmission st) ! j) p = probs (state st ! j) p"
    by (auto simp: sr nth_update_probs markRejected_def)
  have d: "map rank (state (nextSubmission st)) = map rank (state st)"
    "map delta (state (nextSubmission st)) = map delta (state st)"
    "map solved (state (nextSubmission st)) = map solved (state st)"
    "map penalty (state (nextSubmission st)) = map penalty (state st)"
    by (simp_all add: sr map_list_update_same markRejected_def)
  show ?thesis using a b c d sr(6,7) by blast
qed

theorem rejected_step_witness:
  "\<not> processing ex_rejected_solved \<and> \<not> revealFinished ex_rejected_solved
   \<and> queue ex_rejected_solved = [ex_wrong]
   \<and> findContestant (s_handle ex_wrong) (state ex_rejected_solved) = Some 0
   \<and> s_verdict ex_wrong \<noteq> ''OK''
   \<and> cellSolved (state ex_rejected_solved ! 0) (s_problemIndex ex_wrong)
   \<and> state (nextSubmission ex_rejected_solved) = state ex_rejected_solved
   \<and> probs (state (nextSubmission ex_rejected_solved) ! 0) (s_problemIndex ex_wrong)
       = probs (state ex_rejected_solved ! 0) (s_problemIndex ex_wrong)
   \<and> \<not> processing ex_rejected_open \<and> \<not> revealFinished ex_rejected_open
   \<and> queue ex_rejected_open = [ex_wrong]
   \<and> findContestant (s_handle ex_wrong) (state ex_rejected_open) = Some 0
   \<and> \<not> cellSolved (state ex_rejected_open ! 0) (s_problemIndex ex_wrong)
   \<and> probs (state (nextSubmission ex_rejected_open) ! 0) (s_problemIndex ex_wrong)
       = Some \<lparr>cell_solved = False, cell_time = 0, cell_failed = True\<rparr>
   \<and> map rank (state (nextSubmission ex_rejected_open)) = map rank (state ex_rejected_open)
   \<and> map rank (state ex_rejected_open) = [5]
   \<and> map rank (state (recalcRanks ex_rejected_open)) = [1]
   \<and> mvp (nextSubmission ex_rejected_open) = mvp ex_rejected_open"
proof -
  have a: "\<not> processing ex_rejected_solved" "\<not> revealFinished ex_rejected_solved"
    "queue ex_rejected_solved = [ex_wrong]"
    "findContestant (s_handle ex_wrong) (state ex_rejected_solved) = Some 0"
    "s_verdict ex_wrong \<noteq> ''OK''"
    by (simp_all add: ex_all_simps findContestant_def)
  have b: "\<not> processing ex_rejected_open" "\<not> revealFinished ex_rejected_open"
    "queue ex_rejected_open = [ex_wrong]"
    "findContestant (s_handle ex_wrong) (state ex_rejected_open) = Some 0"
    by (simp_all add: ex_all_simps findContestant_def)
  have c: "cellSolved (state ex_rejected_solved ! 0) (s_problemIndex ex_wrong)"
    "\<not> cellSolved (state ex_rejected_open ! 0) (s_problemIndex ex_wrong)"
    by (simp_all add: ex_all_simps cellSolved_def)
  have d: "map rank (state ex_rejected_open) = [5]"
    "map rank (state (recalcRanks ex_rejected_open)) = [1]"
    by (simp_all add: ex_all_simps eval_defs)
  show ?thesis
    using rejected_step [OF a] rejected_step [OF b a(5)] a b c d by simp
qed

text \<open>C6: a tick never shows a negative remaining time or a negative time until the freeze
  (both are clamped to 0). While the phase is live or frozen, a tick fires the end
  transition exactly when the elapsed time has reached the duration; over any run of ticks
  the transition fires at the first such tick only: not before, and never again.\<close>

theorem clock_clamped_end_once:
  assumes "currentPhase k = Live \<or> currentPhase k = Frozen"
  shows "0 \<le> remainingSec (snd (updateTimerDisplay now k))
     \<and> 0 \<le> remainingUntilFreezeSec (snd (updateTimerDisplay now k))
     \<and> (\<forall>out \<in> set (runTicks nows k). 0 \<le> remainingSec out \<and> 0 \<le> remainingUntilFreezeSec out)
     \<and> (firedEnd (snd (updateTimerDisplay now k)) \<longleftrightarrow> contestDurationSec k \<le> elapsedSec k now)
     \<and> map firedEnd (runTicks nows k)
         = firstOnly (map (\<lambda>t. contestDurationSec k \<le> elapsedSec k t) nows)
     \<and> length (filter (\<lambda>b. b) (map firedEnd (runTicks nows k))) \<le> 1"
proof -
  have "length (filter (\<lambda>b. b) (map firedEnd (runTicks nows k))) \<le> 1"
    by (simp only: runTicks_fires_once [OF assms] firstOnly_at_most_one)
  then show ?thesis
    using assms runTicks_fires_once [OF assms, of nows] runTicks_clamped [of _ nows k]
    by (auto simp: tick_fired tick_clamped)
qed

theorem clock_clamped_end_once_witness:
  "(currentPhase ex_clock = Live \<or> currentPhase ex_clock = Frozen)
   \<and> remainingSec (snd (updateTimerDisplay 250000 ex_clock)) = 0
   \<and> remainingUntilFreezeSec (snd (updateTimerDisplay 250000 ex_clock)) = 0
   \<and> firedEnd (snd (updateTimerDisplay 250000 ex_clock))
   \<and> contestDurationSec ex_clock \<le> elapsedSec ex_clock 250000
   \<and> map firedEnd (runTicks [50000, 99999, 100000, 101000, 250000] ex_clock)
       = [False, False, True, False, False]
   \<and> length (filter (\<lambda>b. b) (map firedEnd (runTicks [50000, 99999, 100000, 101000, 250000] ex_clock))) \<le> 1"
proof -
  have a: "currentPhase ex_clock = Live \<or> currentPhase ex_clock = Frozen"
    by (simp add: ex_clock_def)
  have b: "firstOnly (map (\<lambda>t. contestDurationSec ex_clock \<le> elapsedSec ex_clock t)
             [50000, 99999, 100000, 101000, 250000]) = [False, False, True, False, False]"
    "contestDurationSec ex_clock \<le> elapsedSec ex_clock 250000"
    "remainingSec (snd (updateTimerDisplay 250000 ex_clock)) = 0"
    "remainingUntilFreezeSec (snd (updateTimerDisplay 250000 ex_clock)) = 0"
    by (simp_all add: ex_clock_def elapsedSec_def updateTimerDisplay_def Let_def)
  show ?thesis
    using clock_clamped_end_once [OF a, of 250000 "[50000, 99999, 100000, 101000, 250000]"] a b
    by simp
qed

text \<open>C7: a submission whose handle is not in the contestant set is skipped. In step mode
  the step only removes it from the queue and counts it as revealed; every other variable,
  so every per-handle counter, is unchanged. In batch mode the result is the result of the
  batch run on the rest of the queue.\<close>

theorem unknown_handle_skipped:
  assumes "queue st = sub # rest" and "findContestant (s_handle sub) (state st) = None"
  shows "(\<not> processing st \<and> \<not> revealFinished st \<longrightarrow>
            nextSubmission st = st\<lparr>queue := rest, revealed := revealed st + 1\<rparr>)
     \<and> revealAll True st = revealAll True (st\<lparr>queue := rest, revealed := revealed st + 1\<rparr>)"
proof -
  let ?st = "st\<lparr>queue := rest, revealed := revealed st + 1\<rparr>"
  have e: "(stopAuto st)\<lparr>queue := rest, revealed := revealed (stopAuto st) + 1\<rparr> = stopAuto ?st"
    by (simp add: stopAuto_def)
  have "revealOne sub (stopAuto ?st) = stopAuto ?st"
    using assms(2) by (intro revealOne_unknown) (simp add: stopAuto_def)
  then have "revealLoop (queue st) (stopAuto st) = revealLoop (queue ?st) (stopAuto ?st)"
    using assms(1) e by simp
  then have "revealAll True st = revealAll True ?st"
    by (simp add: revealAll_alt)
  then show ?thesis using assms by (simp add: step_unknown)
qed

theorem unknown_handle_skipped_witness:
  "queue ex_unknown = [ex_sub ''zed'' ''A'' ''OK'' 700 None, ex_sub ''ann'' ''D'' ''OK'' 754 (Some 2)]
   \<and> findContestant (s_handle (ex_sub ''zed'' ''A'' ''OK'' 700 None)) (state ex_unknown) = None
   \<and> \<not> processing ex_unknown \<and> \<not> revealFinished ex_unknown
   \<and> nextSubmission ex_unknown
       = ex_unknown\<lparr>queue := [ex_sub ''ann'' ''D'' ''OK'' 754 (Some 2)],
                    revealed := revealed ex_unknown + 1\<rparr>
   \<and> revealAll True ex_unknown
       = revealAll True (ex_unknown\<lparr>queue := [ex_sub ''ann'' ''D'' ''OK'' 754 (Some 2)],
                                     revealed := revealed ex_unknown + 1\<rparr>)"
proof -
  have a: "queue ex_unknown
           = [ex_sub ''zed'' ''A'' ''OK'' 700 None, ex_sub ''ann'' ''D'' ''OK'' 754 (Some 2)]"
    "findContestant (s_handle (ex_sub ''zed'' ''A'' ''OK'' 700 None)) (state ex_unknown) = None"
    by (simp_all add: ex_all_simps findContestant_def)
  have b: "\<not> processing ex_unknown" "\<not> revealFinished ex_unknown"
    by (simp_all add: ex_all_simps)
  show ?thesis
    using unknown_handle_skipped [OF a] a b by simp
qed




text \<open>C9: a call of \<open>nextSubmission\<close> while the \<open>processing\<close> flag is set returns at
  once with the reveal state unchanged; the flag is set in every state between the
  segments of a step in flight, so a call there is rejected.\<close>

theorem step_in_flight_rejected:
  "(processing st \<longrightarrow> nextSubmission st = st)
   \<and> (step_begin st = (st1, Some (sub, i)) \<longrightarrow>
        processing st1 \<and> nextSubmission st1 = st1
        \<and> processing (step_verdict sub i st1)
        \<and> nextSubmission (step_verdict sub i st1) = step_verdict sub i st1
        \<and> processing (step_climb sub i (step_verdict sub i st1))
        \<and> nextSubmission (step_climb sub i (step_verdict sub i st1))
            = step_climb sub i (step_verdict sub i st1))"
proof -
  have guard: "\<And>s. processing s \<Longrightarrow> nextSubmission s = s"
    by (simp add: nextSubmission_def step_begin_def)
  have p1: "processing st1" if "step_begin st = (st1, Some (sub, i))"
    using that
    by (auto simp: step_begin_def trackPersistence_def Let_def
        split: if_splits list.splits option.splits)
  have p2: "\<And>s. processing s \<Longrightarrow> processing (step_verdict sub i s)"
    by (simp add: step_verdict_def)
  have p3: "\<And>s. processing s \<Longrightarrow> processing (step_climb sub i s)"
    by (simp add: step_climb_def recalcRanks_def Let_def)
  show ?thesis using guard p1 p2 p3 by blast
qed

theorem step_in_flight_rejected_witness:
  "processing (ex_penalty\<lparr>processing := True\<rparr>)
   \<and> nextSubmission (ex_penalty\<lparr>processing := True\<rparr>) = ex_penalty\<lparr>processing := True\<rparr>
   \<and> step_begin ex_penalty = (ex_in_flight, Some (ex_sub ''ann'' ''D'' ''OK'' 754 (Some 2), 0))
   \<and> processing ex_in_flight \<and> nextSubmission ex_in_flight = ex_in_flight
   \<and> queue ex_in_flight = []"
proof -
  let ?sub = "ex_sub ''ann'' ''D'' ''OK'' 754 (Some 2)"
  have a: "processing (ex_penalty\<lparr>processing := True\<rparr>)" by simp
  have "snd (step_begin ex_penalty) = Some (?sub, 0)"
    by (simp add: step_begin_def ex_all_simps findContestant_def Let_def)
  then have b: "step_begin ex_penalty = (ex_in_flight, Some (?sub, 0))"
    unfolding ex_in_flight_def by (metis prod.collapse)
  have c: "queue ex_in_flight = []"
    by (simp add: ex_in_flight_def step_begin_def ex_all_simps findContestant_def Let_def
        trackPersistence_def)
  show ?thesis
    using step_in_flight_rejected [of "ex_penalty\<lparr>processing := True\<rparr>"]
      step_in_flight_rejected [of ex_penalty ex_in_flight ?sub 0] a b c by simp
qed

text \<open>C10: after \<open>recalcRanks\<close> over \<open>n\<close> contestants the ranks are pairwise distinct
  and are exactly the integers \<open>1..n\<close>, and every contestant's \<open>delta\<close> is
  \<open>freezeRank\<close> minus the new rank (\<open>freezeRank\<close> itself is untouched).\<close>

theorem recalcRanks_one_to_n:
  "length (state (recalcRanks st)) = length (state st)
   \<and> distinct (map rank (state (recalcRanks st)))
   \<and> set (map rank (state (recalcRanks st))) = {1..int (length (state st))}
   \<and> map delta (state (recalcRanks st))
       = map (\<lambda>c. freezeRank c - rank c) (state (recalcRanks st))
   \<and> map freezeRank (state (recalcRanks st)) = map freezeRank (state st)"
proof -
  let ?cs = "state st"
  have m: "mset (map rank (recalc ?cs)) = mset (map (\<lambda>p. int p + 1) [0..<length ?cs])"
    by (rule mset_ranks_recalc)
  have "distinct (map (\<lambda>p. int p + 1) [0..<length ?cs])"
    by (simp add: distinct_map inj_on_def)
  then have d: "distinct (map rank (recalc ?cs))"
    using m by (metis mset_eq_imp_distinct_iff)
  have "set (map rank (recalc ?cs)) = set (map (\<lambda>p. int p + 1) [0..<length ?cs])"
    using m by (rule mset_eq_setD)
  then have s: "set (map rank (recalc ?cs)) = {1..int (length ?cs)}"
    using ranks_image [of "length ?cs"] by simp
  have dl: "map delta (recalc ?cs) = map (\<lambda>c. freezeRank c - rank c) (recalc ?cs)"
    by (rule nth_equalityI) (simp_all add: length_recalc recalc_delta)
  have fr: "map freezeRank (recalc ?cs) = map freezeRank ?cs"
    by (rule recalc_keeps) (rule freezeRank_set_rank)
  show ?thesis
    using d s dl fr by (simp add: recalcRanks_def length_recalc)
qed

end
